theory Spec2Isabelle
  imports Main "HOL-Library.AList" "HOL-Library.Sublist" "HOL-Library.List_Lexorder" "HOL-Library.Char_ord"
begin

section \<open>Strings\<close>

text \<open>
  A Python \<open>str\<close> is modelled as a \<^typ>\<open>string\<close> whose characters are the code
  points below 256. After the token cleaning of the main loop only ASCII letters and
  the apostrophe are left, so every string the core functions receive from the script
  is inside this range.
\<close>

definition lower_char :: "char \<Rightarrow> char" where
  \<comment> \<open>\<open>str.lower\<close> on one code point below 256: A-Z, and U+00C0..U+00DE except U+00D7.\<close>
  "lower_char c =
     (let n = (of_char c :: nat)
      in if (65 \<le> n \<and> n \<le> 90) \<or> (192 \<le> n \<and> n \<le> 222 \<and> n \<noteq> 215)
         then char_of (n + 32) else c)"

definition lower :: "string \<Rightarrow> string" where
  "lower s = map lower_char s"

definition endswith :: "string \<Rightarrow> string \<Rightarrow> bool" where
  "endswith s suf =
     (length suf \<le> length s \<and> drop (length s - length suf) s = suf)"

definition startswith :: "string \<Rightarrow> string \<Rightarrow> bool" where
  "startswith s pre = (take (length pre) s = pre)"

definition is_space :: "char \<Rightarrow> bool" where
  \<comment> \<open>\<open>str.isspace\<close> on a code point below 256.\<close>
  "is_space c = ((of_char c :: nat) \<in> {9, 10, 11, 12, 13, 28, 29, 30, 31, 32, 133, 160})"

definition strip :: "string \<Rightarrow> string" where
  "strip s = rev (dropWhile is_space (rev (dropWhile is_space s)))"

section \<open>Rule explainer\<close>

text \<open>
  The explanations are fixed, pairwise different texts; each one is a constructor.
  \<open>Rule_tion\<close> .. \<open>Rule_ible\<close> are the texts of the suffix table, \<open>Rule_VCC\<close> and
  \<open>Rule_CVC\<close> those of the two spelling patterns, \<open>Rule_multi\<close> the multi-syllable
  note and \<open>Rule_fallback\<close> the generic message.
\<close>

datatype rule =
    Rule_tion | Rule_sion | Rule_ing | Rule_er | Rule_or
  | Rule_ment | Rule_ness | Rule_able | Rule_ible
  | Rule_VCC | Rule_CVC | Rule_multi | Rule_fallback

definition suffix_rules :: "(string \<times> rule) list" where
  \<comment> \<open>The dict literal, in its insertion order (the order \<open>items()\<close> iterates in).\<close>
  "suffix_rules =
     [(''tion'', Rule_tion), (''sion'', Rule_sion), (''ing'', Rule_ing),
      (''er'', Rule_er), (''or'', Rule_or), (''ment'', Rule_ment),
      (''ness'', Rule_ness), (''able'', Rule_able), (''ible'', Rule_ible)]"

fun suffix_loop :: "(string \<times> rule) list \<Rightarrow> string \<Rightarrow> rule list \<Rightarrow> string list \<times> rule list" where
  \<comment> \<open>\<open>for suf, text in ...: if base.endswith(suf): rules.append(text); break\<close>.
      The first component lists the suffixes the loop has tested, in order.\<close>
  "suffix_loop [] base rules = ([], rules)"
| "suffix_loop ((suf, text) # rest) base rules =
     (if endswith base suf then ([suf], rules @ [text])
      else (case suffix_loop rest base rules of (tested, rules') \<Rightarrow> (suf # tested, rules')))"

definition is_vowel :: "char \<Rightarrow> bool" where
  "is_vowel c = (c \<in> set ''aeiou'')"

definition is_consonant :: "char \<Rightarrow> bool" where
  "is_consonant c = (c \<in> set ''bcdfghjklmnpqrstvwxyz'')"

fun search_vcc :: "string \<Rightarrow> bool" where
  \<comment> \<open>\<open>re.search(r"[aeiou][bcdfghjklmnpqrstvwxyz]{2}", base)\<close>\<close>
  "search_vcc (a # b # c # rest) =
     ((is_vowel a \<and> is_consonant b \<and> is_consonant c) \<or> search_vcc (b # c # rest))"
| "search_vcc _ = False"

fun search_cvc :: "string \<Rightarrow> bool" where
  \<comment> \<open>\<open>re.search(r"[bcdfghjklmnpqrstvwxyz][aeiou][bcdfghjklmnpqrstvwxyz]", base)\<close>\<close>
  "search_cvc (a # b # c # rest) =
     ((is_consonant a \<and> is_vowel b \<and> is_consonant c) \<or> search_cvc (b # c # rest))"
| "search_cvc _ = False"

definition explain_syllable_rules :: "string \<Rightarrow> string list \<Rightarrow> rule list" where
  "explain_syllable_rules word syllables =
     (let base = lower word;
          rules = [];
          rules = snd (suffix_loop suffix_rules base rules);
          rules = (if search_vcc base then rules @ [Rule_VCC] else rules);
          rules = (if search_cvc base then rules @ [Rule_CVC] else rules);
          rules = (if length syllables \<ge> 3 then rules @ [Rule_multi] else rules);
          rules = (if rules = [] then rules @ [Rule_fallback] else rules)
      in rules)"

definition suffix_texts :: "rule set" where
  "suffix_texts = snd ` set suffix_rules"

definition first_match :: "(string \<times> rule) list \<Rightarrow> string \<Rightarrow> nat \<Rightarrow> bool" where
  \<comment> \<open>Entry \<open>i\<close> of the table is the first one whose suffix \<open>base\<close> ends with.\<close>
  "first_match tbl base i =
     (i < length tbl \<and> endswith base (fst (tbl ! i)) \<and>
      (\<forall>p \<in> set (take i tbl). \<not> endswith base (fst p)))"

definition no_suffix_match :: "(string \<times> rule) list \<Rightarrow> string \<Rightarrow> bool" where
  "no_suffix_match tbl base = (\<forall>p \<in> set tbl. \<not> endswith base (fst p))"

section \<open>Dictionary resolver\<close>

text \<open>
  The value \<open>json.loads\<close> returns. An object is the parsed \<open>dict\<close>, as the list of
  its items; a key is looked up with \<open>map_of\<close>. Numbers are only ever tested for being
  a string, a list or falsy, so the integers stand for all of them.
\<close>

datatype json =
    JNull | JBool bool | JNum int | JStr string | JArr "json list" | JObj "(string \<times> json) list"

datatype exn = AttributeError

fun truthy :: "json \<Rightarrow> bool" where
  "truthy JNull = False"
| "truthy (JBool b) = b"
| "truthy (JNum n) = (n \<noteq> 0)"
| "truthy (JStr s) = (s \<noteq> [])"
| "truthy (JArr xs) = (xs \<noteq> [])"
| "truthy (JObj kvs) = (kvs \<noteq> [])"

fun first_item :: "json \<Rightarrow> json option" where
  \<comment> \<open>\<open>x[0]\<close> under the test \<open>isinstance(x, list) and x\<close>\<close>
  "first_item (JArr (x # xs)) = Some x"
| "first_item _ = None"

definition py_or :: "json \<Rightarrow> json \<Rightarrow> json" where
  \<comment> \<open>\<open>a or b\<close>\<close>
  "py_or a b = (if truthy a then a else b)"

fun get :: "json \<Rightarrow> string \<Rightarrow> exn + json" where
  \<comment> \<open>\<open>x.get(key)\<close>: only a dict has the method.\<close>
  "get (JObj kvs) k = Inr (case map_of kvs k of None \<Rightarrow> JNull | Some v \<Rightarrow> v)"
| "get _ k = Inl AttributeError"

record word_info =
  ipa :: "string option"
  pos :: "string option"
  defn :: "string option"
  example :: "string option"
  synonyms :: "string list"

definition base_result :: word_info where
  "base_result = \<lparr>ipa = None, pos = None, defn = None, example = None, synonyms = []\<rparr>"

definition str_field :: "json \<Rightarrow> string option" where
  \<comment> \<open>\<open>isinstance(x, str) and x.strip()\<close>, giving \<open>x.strip()\<close>\<close>
  "str_field x = (case x of JStr s \<Rightarrow> (if strip s \<noteq> [] then Some (strip s) else None) | _ \<Rightarrow> None)"

fun phonetics_loop :: "json list \<Rightarrow> json \<Rightarrow> exn + json" where
  \<comment> \<open>\<open>for p in phonetics: text = p.get("text"); if ...: ipa = text.strip(); break\<close>\<close>
  "phonetics_loop [] ipa0 = Inr ipa0"
| "phonetics_loop (p # ps) ipa0 =
     (case get p ''text'' of
        Inl e \<Rightarrow> Inl e
      | Inr t \<Rightarrow> (case str_field t of Some s \<Rightarrow> Inr (JStr s) | None \<Rightarrow> phonetics_loop ps ipa0))"

definition wrap_ipa :: "string \<Rightarrow> string" where
  "wrap_ipa s = (if \<not> (startswith s ''/'' \<or> startswith s ''['') then ''/'' @ s @ ''/'' else s)"

definition extract_ipa :: "json \<Rightarrow> word_info \<Rightarrow> exn + word_info" where
  \<comment> \<open>The IPA block of \<open>fetch_word_info_from_api\<close>.\<close>
  "extract_ipa entry res =
     (case get entry ''phonetic'' of
        Inl e \<Rightarrow> Inl e
      | Inr ipa0 \<Rightarrow>
          (case (if \<not> truthy ipa0
                 then (case get entry ''phonetics'' of
                         Inl e \<Rightarrow> Inl e
                       | Inr ph \<Rightarrow>
                           (case py_or ph (JArr []) of
                              JArr ps \<Rightarrow> phonetics_loop ps ipa0
                            | _ \<Rightarrow> Inr ipa0))
                 else Inr ipa0) of
             Inl e \<Rightarrow> Inl e
           | Inr ipa1 \<Rightarrow>
               (case str_field ipa1 of
                  Some s \<Rightarrow> Inr (res\<lparr>ipa := Some (wrap_ipa s)\<rparr>)
                | None \<Rightarrow> Inr res)))"

fun synonyms_loop :: "json list \<Rightarrow> string list \<Rightarrow> string list" where
  \<comment> \<open>\<open>for s in syns: ...\<close> with the accumulator \<open>uniq\<close>\<close>
  "synonyms_loop [] uniq = uniq"
| "synonyms_loop (s # syns) uniq =
     (case s of
        JStr t \<Rightarrow>
          (let s_clean = strip t
           in if s_clean \<noteq> [] \<and> s_clean \<notin> set uniq
              then synonyms_loop syns (uniq @ [s_clean])
              else synonyms_loop syns uniq)
      | _ \<Rightarrow> synonyms_loop syns uniq)"

definition set_opt :: "string option \<Rightarrow> string option \<Rightarrow> string option" where
  \<comment> \<open>a field that is assigned only when the new value is present\<close>
  "set_opt new old = (case new of Some s \<Rightarrow> Some s | None \<Rightarrow> old)"

definition extract_definition :: "json \<Rightarrow> word_info \<Rightarrow> exn + word_info" where
  \<comment> \<open>The block under \<open>d0 = defs[0]\<close>.\<close>
  "extract_definition d0 res =
     (case get d0 ''definition'' of
        Inl e \<Rightarrow> Inl e
      | Inr dv \<Rightarrow>
          (let res = res\<lparr>defn := set_opt (str_field dv) (defn res)\<rparr>
           in case get d0 ''example'' of
                Inl e \<Rightarrow> Inl e
              | Inr ex \<Rightarrow>
                  (let res = res\<lparr>example := set_opt (str_field ex) (example res)\<rparr>
                   in case get d0 ''synonyms'' of
                        Inl e \<Rightarrow> Inl e
                      | Inr sy \<Rightarrow>
                          (case py_or sy (JArr []) of
                             JArr syns \<Rightarrow> Inr (res\<lparr>synonyms := take 5 (synonyms_loop syns [])\<rparr>)
                           | _ \<Rightarrow> Inr res))))"

definition extract_meaning :: "json \<Rightarrow> word_info \<Rightarrow> exn + word_info" where
  \<comment> \<open>The block under \<open>m = meanings[0]\<close>.\<close>
  "extract_meaning m res =
     (case get m ''partOfSpeech'' of
        Inl e \<Rightarrow> Inl e
      | Inr p \<Rightarrow>
          (let res = res\<lparr>pos := set_opt (str_field p) (pos res)\<rparr>
           in case get m ''definitions'' of
                Inl e \<Rightarrow> Inl e
              | Inr ds \<Rightarrow>
                  (case first_item (py_or ds (JArr [])) of
                     Some d0 \<Rightarrow> extract_definition d0 res
                   | None \<Rightarrow> Inr res)))"

definition extract_meanings :: "json \<Rightarrow> word_info \<Rightarrow> exn + word_info" where
  \<comment> \<open>The meanings block of \<open>fetch_word_info_from_api\<close>.\<close>
  "extract_meanings entry res =
     (case get entry ''meanings'' of
        Inl e \<Rightarrow> Inl e
      | Inr ms \<Rightarrow>
          (case first_item (py_or ms (JArr [])) of
             Some m \<Rightarrow> extract_meaning m res
           | None \<Rightarrow> Inr res))"

text \<open>
  What the \<open>try\<close> block can meet. \<open>urlopen\<close> raises (a network error, a timeout or any
  other exception), or a response with a status and a body arrives. Decoding and parsing
  the body is \<open>json_loads\<close>, which is \<open>None\<close> where reading, decoding or parsing raises.
  The hyphenation library, the network, the JSON parser and the clock are parameters.
\<close>

datatype reply = NetworkError | Timeout | OtherException | Response nat string

record env =
  inserted :: "string \<Rightarrow> string"
  urlopen :: "string list \<Rightarrow> string \<Rightarrow> reply"
  json_loads :: "string \<Rightarrow> json option"
  now_str :: "nat \<Rightarrow> string"

definition fetch_word_info_from_api :: "env \<Rightarrow> string list \<Rightarrow> string \<Rightarrow> exn + word_info" where
  \<comment> \<open>The second argument is the list of the requests made before this one.\<close>
  "fetch_word_info_from_api ev reqs word =
     (case urlopen ev reqs word of
        Response status body \<Rightarrow>
          (if status \<noteq> 200 then Inr base_result
           else (case json_loads ev body of
                   None \<Rightarrow> Inr base_result
                 | Some js \<Rightarrow>
                     (case first_item js of
                        None \<Rightarrow> Inr base_result
                      | Some entry \<Rightarrow>
                          (case extract_ipa entry base_result of
                             Inl e \<Rightarrow> Inl e
                           | Inr res \<Rightarrow> extract_meanings entry res))))
      | _ \<Rightarrow> Inr base_result)"

section \<open>Session state and the main loop\<close>

text \<open>
  A history record is the dict stored in the ledger. Its seven keys are the Chinese
  column names of the export; the fields are, in the order of the export:
  \<open>h_time\<close> (U+65F6 U+95F4), \<open>h_count\<close> (U+6B21 U+6570),
  \<open>h_raw\<close> (U+539F U+59CB U+8F93 U+5165), \<open>h_word\<close> (U+6807 U+51C6 U+5355 U+8BCD),
  \<open>h_split\<close> (U+97F3 U+8282 U+5206 U+9694), \<open>h_syllables\<close> (U+97F3 U+8282 U+6570)
  and \<open>h_ipa\<close> (IPA).
\<close>

record history_record =
  h_time :: string
  h_count :: nat
  h_raw :: string
  h_word :: string
  h_split :: string
  h_syllables :: nat
  h_ipa :: string

text \<open>A card is recorded by the values the HTML of the card is built from.\<close>

record card =
  c_token :: string
  c_pretty :: string
  c_cnt :: nat
  c_ipa :: "string option"
  c_pos :: "string option"
  c_defn :: "string option"
  c_example :: "string option"
  c_synonyms :: "string list"
  c_rules :: "rule list"

text \<open>
  \<open>dict_cache\<close> and \<open>history\<close> are the two dicts of the session state, as the lists of
  their items in insertion order. \<open>requests\<close> logs the words the network was asked
  for, \<open>clock_reads\<close> counts the calls of \<open>datetime.now\<close>. The totals and the cards
  belong to the page of the current run.
\<close>

record state =
  dict_cache :: "(string \<times> word_info) list"
  history :: "(string \<times> history_record) list"
  requests :: "string list"
  clock_reads :: nat
  total_words :: nat
  total_syllables :: nat
  cards :: "card list"

definition initial_state :: state where
  "initial_state =
     \<lparr>dict_cache = [], history = [], requests = [], clock_reads = 0,
      total_words = 0, total_syllables = 0, cards = []\<rparr>"

definition get_word_info :: "env \<Rightarrow> string \<Rightarrow> state \<Rightarrow> (exn + word_info) \<times> state" where
  "get_word_info ev word st =
     (let key = lower word
      in case map_of (dict_cache st) key of
           Some info \<Rightarrow> (Inr info, st)
         | None \<Rightarrow>
             (let st1 = st\<lparr>requests := requests st @ [key]\<rparr>
              in case fetch_word_info_from_api ev (requests st) key of
                   Inl e \<Rightarrow> (Inl e, st1)
                 | Inr info \<Rightarrow> (Inr info, st1\<lparr>dict_cache := dict_cache st1 @ [(key, info)]\<rparr>)))"

definition is_ascii_letter :: "char \<Rightarrow> bool" where
  \<comment> \<open>the class \<open>A-Za-z\<close>\<close>
  "is_ascii_letter c =
     (let n = (of_char c :: nat) in (65 \<le> n \<and> n \<le> 90) \<or> (97 \<le> n \<and> n \<le> 122))"

definition keep_char :: "char \<Rightarrow> bool" where
  \<comment> \<open>the characters \<open>re.sub(r"[^A-Za-z']", "", w)\<close> leaves: the letters and the apostrophe\<close>
  "keep_char c = (is_ascii_letter c \<or> c = CHR 0x27)"

definition clean :: "string \<Rightarrow> string" where
  "clean w = filter keep_char w"

fun split_on :: "char \<Rightarrow> string \<Rightarrow> string \<Rightarrow> string list" where
  \<comment> \<open>\<open>s.split(sep)\<close> is \<open>split_on sep [] s\<close>; the second argument is the piece being read.\<close>
  "split_on sep cur [] = [cur]"
| "split_on sep cur (c # cs) =
     (if c = sep then cur # split_on sep [] cs else split_on sep (cur @ [c]) cs)"

fun words_from :: "string \<Rightarrow> string \<Rightarrow> string list" where
  \<comment> \<open>\<open>s.split()\<close> is \<open>words_from [] s\<close>: pieces between runs of whitespace, none empty.\<close>
  "words_from cur [] = (if cur = [] then [] else [cur])"
| "words_from cur (c # cs) =
     (if is_space c then (if cur = [] then words_from [] cs else cur # words_from [] cs)
      else words_from (cur @ [c]) cs)"

fun join_with :: "string \<Rightarrow> string list \<Rightarrow> string" where
  "join_with sep [] = []"
| "join_with sep [x] = x"
| "join_with sep (x # y # ys) = x @ sep @ join_with sep (y # ys)"

definition update_history ::
  "(string \<times> history_record) list \<Rightarrow> string \<Rightarrow> string \<Rightarrow> string \<Rightarrow> nat \<Rightarrow> string \<Rightarrow> string
     \<Rightarrow> (string \<times> history_record) list" where
  \<comment> \<open>\<open>if base in history: ... else: history[base] = {...}\<close>. \<open>AList.update\<close> replaces the
      value of a key in place and puts a new key at the end, as a dict does.\<close>
  "update_history h base w pretty cnt ipa_for_history now =
     (case map_of h base of
        Some entry \<Rightarrow>
          AList.update base
            (entry\<lparr>h_time := now, h_count := h_count entry + 1, h_raw := w,
                   h_split := pretty, h_syllables := cnt, h_ipa := ipa_for_history\<rparr>) h
      | None \<Rightarrow>
          AList.update base
            \<lparr>h_time = now, h_count = 1, h_raw = w, h_word = base,
             h_split = pretty, h_syllables = cnt, h_ipa = ipa_for_history\<rparr> h)"

definition process_word :: "env \<Rightarrow> string \<Rightarrow> state \<Rightarrow> exn option \<times> state" where
  \<comment> \<open>One pass of \<open>for w in words\<close>. The first component is the exception that ended
      the run, if any; the state is the one reached.\<close>
  "process_word ev w st =
     (let clean_word = clean w
      in if clean_word = [] then (None, st)
         else
           (let base = lower clean_word;
                st = st\<lparr>total_words := total_words st + 1\<rparr>;
                hyphenated = inserted ev base;
                syllables = split_on CHR ''-'' [] hyphenated;
                cnt = length syllables;
                st = st\<lparr>total_syllables := total_syllables st + cnt\<rparr>;
                pretty = join_with [CHR 0xB7] syllables
            in case get_word_info ev base st of
                 (Inl e, st) \<Rightarrow> (Some e, st)
               | (Inr info, st) \<Rightarrow>
                   (let rules = explain_syllable_rules base syllables;
                        st = st\<lparr>cards := cards st @
                               [\<lparr>c_token = w, c_pretty = pretty, c_cnt = cnt, c_ipa = ipa info,
                                 c_pos = pos info, c_defn = defn info, c_example = example info,
                                 c_synonyms = synonyms info, c_rules = rules\<rparr>]\<rparr>;
                        now = now_str ev (clock_reads st);
                        st = st\<lparr>clock_reads := clock_reads st + 1\<rparr>;
                        ipa_for_history = (case ipa info of Some s \<Rightarrow> s | None \<Rightarrow> [])
                    in (None, st\<lparr>history :=
                                 update_history (history st) base w pretty cnt ipa_for_history now\<rparr>))))"

fun process_words :: "env \<Rightarrow> string list \<Rightarrow> state \<Rightarrow> exn option \<times> state" where
  "process_words ev [] st = (None, st)"
| "process_words ev (w # ws) st =
     (case process_word ev w st of
        (Some e, st') \<Rightarrow> (Some e, st')
      | (None, st') \<Rightarrow> process_words ev ws st')"

definition run_script :: "env \<Rightarrow> string \<Rightarrow> state \<Rightarrow> exn option \<times> state" where
  \<comment> \<open>One run of the script on the text of the input box: a fresh page, then the loop.\<close>
  "run_script ev input st =
     (let st = st\<lparr>total_words := 0, total_syllables := 0, cards := []\<rparr>
      in if strip input \<noteq> [] then process_words ev (words_from [] (strip input)) st
         else (None, st))"

inductive reachable :: "env \<Rightarrow> state \<Rightarrow> bool" for ev :: env where
  \<comment> \<open>The states of a session: it starts empty, every interaction runs the script,
      and the clear button empties the ledger.\<close>
  start: "reachable ev initial_state"
| rerun: "reachable ev st \<Longrightarrow> run_script ev input st = (r, st') \<Longrightarrow> reachable ev st'"
| clear: "reachable ev st \<Longrightarrow> reachable ev (st\<lparr>history := []\<rparr>)"

section \<open>Export\<close>

datatype column = Col_time | Col_count | Col_raw | Col_word | Col_split | Col_syllables | Col_IPA

definition column_label :: "column \<Rightarrow> nat list" where
  \<comment> \<open>the code points of the column name\<close>
  "column_label c =
     (case c of
        Col_time \<Rightarrow> [0x65F6, 0x95F4]
      | Col_count \<Rightarrow> [0x6B21, 0x6570]
      | Col_raw \<Rightarrow> [0x539F, 0x59CB, 0x8F93, 0x5165]
      | Col_word \<Rightarrow> [0x6807, 0x51C6, 0x5355, 0x8BCD]
      | Col_split \<Rightarrow> [0x97F3, 0x8282, 0x5206, 0x9694]
      | Col_syllables \<Rightarrow> [0x97F3, 0x8282, 0x6570]
      | Col_IPA \<Rightarrow> [0x49, 0x50, 0x41])"

datatype cell = Label column | Text string | Number nat

definition headers :: "cell list" where
  "headers =
     [Label Col_time, Label Col_count, Label Col_raw, Label Col_word,
      Label Col_split, Label Col_syllables, Label Col_IPA]"

definition record_row :: "history_record \<Rightarrow> cell list" where
  "record_row item =
     [Text (h_time item), Number (h_count item), Text (h_raw item), Text (h_word item),
      Text (h_split item), Number (h_syllables item), Text (h_ipa item)]"

definition records :: "(string \<times> history_record) list \<Rightarrow> history_record list" where
  \<comment> \<open>\<open>list(history_dict.values())\<close>\<close>
  "records h = map snd h"

definition csv_rows :: "(string \<times> history_record) list \<Rightarrow> cell list list" where
  \<comment> \<open>the rows handed to \<open>writer.writerow\<close>; \<open>sort_key\<close> is stable, as \<open>sorted\<close> is\<close>
  "csv_rows h = headers # map record_row (sort_key h_time (records h))"

text \<open>
  The TXT export is a text. A text that holds the column names is a list of code points;
  the fields of a record are strings, the two numbers in decimal. A line is built with a
  tab (9) between its fields and the lines are joined with a newline (10); nothing in a
  field is escaped.
\<close>

definition code_points :: "string \<Rightarrow> nat list" where
  "code_points s = map of_char s"

fun str_nat :: "nat \<Rightarrow> string" where
  \<comment> \<open>\<open>str(n)\<close> of a count\<close>
  "str_nat n =
     (if n < 10 then [char_of (48 + n)] else str_nat (n div 10) @ [char_of (48 + n mod 10)])"

declare str_nat.simps [simp del]

fun join_text :: "nat list \<Rightarrow> nat list list \<Rightarrow> nat list" where
  \<comment> \<open>\<open>sep.join(xs)\<close> on texts\<close>
  "join_text sep [] = []"
| "join_text sep [x] = x"
| "join_text sep (x # y # ys) = x @ sep @ join_text sep (y # ys)"

definition txt_header :: "nat list" where
  \<comment> \<open>the string literal with the seven column names and six tabs\<close>
  "txt_header =
     join_text [9]
       (map column_label [Col_time, Col_count, Col_raw, Col_word, Col_split, Col_syllables, Col_IPA])"

definition txt_line :: "history_record \<Rightarrow> nat list" where
  \<comment> \<open>the f-string of one record: its seven fields with a tab between them\<close>
  "txt_line item =
     join_text [9]
       (map code_points
          [h_time item, str_nat (h_count item), h_raw item, h_word item,
           h_split item, str_nat (h_syllables item), h_ipa item])"

definition txt_lines :: "(string \<times> history_record) list \<Rightarrow> nat list list" where
  \<comment> \<open>the list \<open>lines\<close>: the header line, then one line per record in the sorted order\<close>
  "txt_lines h = txt_header # map txt_line (sort_key h_time (records h))"

definition txt_data :: "(string \<times> history_record) list \<Rightarrow> nat list" where
  \<comment> \<open>\<open>"\n".join(lines)\<close>\<close>
  "txt_data h = join_text [10] (txt_lines h)"

definition export :: "(string \<times> history_record) list \<Rightarrow> (cell list list \<times> nat list) option" where
  \<comment> \<open>the export block runs only when the ledger is not empty\<close>
  "export h = (if h = [] then None else Some (csv_rows h, txt_data h))"

section \<open>Predicates of the claims and sample environments\<close>

fun is_nonempty_array :: "json \<Rightarrow> bool" where
  "is_nonempty_array (JArr (x # xs)) = True"
| "is_nonempty_array _ = False"

fun fetch_failure :: "env \<Rightarrow> reply \<Rightarrow> bool" where
  \<comment> \<open>The failures of a fetch: a network error, a timeout, any other exception, a status
      other than 200, a body that does not parse, a body that is not a non-empty array.\<close>
  "fetch_failure ev NetworkError = True"
| "fetch_failure ev Timeout = True"
| "fetch_failure ev OtherException = True"
| "fetch_failure ev (Response status body) =
     (status \<noteq> 200 \<or>
      (case json_loads ev body of None \<Rightarrow> True | Some js \<Rightarrow> \<not> is_nonempty_array js))"

definition key_inv :: "(string \<times> history_record) list \<Rightarrow> bool" where
  \<comment> \<open>every record carries the key it is stored under\<close>
  "key_inv h = (\<forall>(k, e) \<in> set h. h_word e = k)"

definition ledger_ok :: "(string \<times> history_record) list \<Rightarrow> bool" where
  \<comment> \<open>the items of a dict (no key twice) whose records carry their keys\<close>
  "ledger_ok h = (distinct (map fst h) \<and> key_inv h)"

definition syllables_inv :: "(string \<times> history_record) list \<Rightarrow> bool" where
  "syllables_inv h = (\<forall>(k, e) \<in> set h. 1 \<le> h_syllables e)"

definition no_kept_char :: "string \<Rightarrow> bool" where
  \<comment> \<open>a token without any ASCII letter and without an apostrophe\<close>
  "no_kept_char w = (\<forall>c \<in> set w. \<not> keep_char c)"

definition dedup_first :: "'a list \<Rightarrow> 'a list" where
  \<comment> \<open>the list without its repetitions, every element at its first occurrence\<close>
  "dedup_first xs = rev (remdups (rev xs))"

fun cell_text :: "cell \<Rightarrow> string" where
  "cell_text (Text s) = s"
| "cell_text _ = []"

definition row_time :: "cell list \<Rightarrow> string" where
  "row_time row = cell_text (row ! 0)"

definition row_word :: "cell list \<Rightarrow> string" where
  "row_word row = cell_text (row ! 3)"

fun lines_from :: "nat list \<Rightarrow> nat list \<Rightarrow> nat list list" where
  \<comment> \<open>The lines of a text are \<open>lines_from [] t\<close>: the pieces between its newline
      characters. The first argument is the line being read.\<close>
  "lines_from cur [] = [cur]"
| "lines_from cur (c # cs) =
     (if c = 10 then cur # lines_from [] cs else lines_from (cur @ [c]) cs)"

definition has_newline :: "string \<Rightarrow> bool" where
  "has_newline s = (CHR 0x0A \<in> set s)"

definition no_newline :: "(string \<times> history_record) list \<Rightarrow> bool" where
  \<comment> \<open>no string field of any record holds a newline character\<close>
  "no_newline h =
     (\<forall>(k, e) \<in> set h.
        \<not> has_newline (h_time e) \<and> \<not> has_newline (h_raw e) \<and> \<not> has_newline (h_word e)
        \<and> \<not> has_newline (h_split e) \<and> \<not> has_newline (h_ipa e))"

definition newline_entry :: json where
  \<comment> \<open>an entry whose transcription holds a line break\<close>
  "newline_entry = JObj [(''phonetic'', JStr (''/a'' @ [CHR 0x0A] @ ''b/''))]"

definition sample_env :: "reply \<Rightarrow> json option \<Rightarrow> env" where
  \<comment> \<open>An environment for the examples: one hyphenation, a fixed reply of the network,
      a fixed result of the parser, and a clock that advances by a second per reading.\<close>
  "sample_env rep js =
     \<lparr>inserted = (\<lambda>s. if s = ''computer'' then ''com-put-er'' else s),
      urlopen = (\<lambda>reqs w. rep),
      json_loads = (\<lambda>body. js),
      now_str = (\<lambda>n. ''2024-01-01 00:00:0'' @ [char_of (48 + n)])\<rparr>"

definition text_of :: "json \<Rightarrow> string option" where
  \<comment> \<open>the trimmed text of an element of the phonetics list, when it is a string and
      something is left of it\<close>
  "text_of p =
     (case get p ''text'' of
        Inr (JStr t) \<Rightarrow> (if strip t = [] then None else Some (strip t))
      | _ \<Rightarrow> None)"

definition first_text :: "json list \<Rightarrow> string option" where
  "first_text ps =
     (case List.find (\<lambda>p. text_of p \<noteq> None) ps of Some p \<Rightarrow> text_of p | None \<Rightarrow> None)"

text \<open>
  The IPA extraction as the specification words it, to be compared with the code: the
  direct field when it is a non-empty string, else the first element of the phonetics
  list with a non-empty text, and the string wrapped unless it starts with a slash or a
  bracket.
\<close>

definition claimed_text :: "json \<Rightarrow> string option" where
  "claimed_text p =
     (case get p ''text'' of
        Inr (JStr t) \<Rightarrow> (if t = [] then None else Some t)
      | _ \<Rightarrow> None)"

definition claimed_from_phonetics :: "json \<Rightarrow> string option" where
  "claimed_from_phonetics entry =
     (case get entry ''phonetics'' of
        Inr (JArr ps) \<Rightarrow>
          (case List.find (\<lambda>p. claimed_text p \<noteq> None) ps of
             Some p \<Rightarrow> map_option wrap_ipa (claimed_text p)
           | None \<Rightarrow> None)
      | _ \<Rightarrow> None)"

definition claimed_ipa :: "json \<Rightarrow> string option" where
  "claimed_ipa entry =
     (case get entry ''phonetic'' of
        Inr (JStr s) \<Rightarrow> (if s = [] then claimed_from_phonetics entry else Some (wrap_ipa s))
      | Inr JNull \<Rightarrow> claimed_from_phonetics entry
      | _ \<Rightarrow> None)"

definition blank_text_entry :: json where
  "blank_text_entry =
     JObj [(''phonetics'', JArr [JObj [(''text'', JStr '' '')], JObj [(''text'', JStr ''/b/'')]])]"

definition padded_entry :: json where
  "padded_entry = JObj [(''phonetic'', JStr '' /a/ '')]"

definition sample_synonyms :: "json list" where
  "sample_synonyms =
     [JStr ''fast'', JStr '' fast '', JNum 3, JStr ''quick'', JStr '' '', JStr ''rapid'',
      JStr ''swift'', JStr ''speedy'', JStr ''hasty'']"

definition sample_definition :: json where
  "sample_definition =
     JObj [(''definition'', JStr ''moving quickly''), (''synonyms'', JArr sample_synonyms)]"

definition sample_meaning :: json where
  "sample_meaning =
     JObj [(''partOfSpeech'', JStr ''adjective''), (''definitions'', JArr [sample_definition])]"

definition sample_entry :: json where
  "sample_entry =
     JObj [(''phonetics'', JArr [JObj [(''text'', JStr '' '')], JObj [(''text'', JStr '' kwik '')]]),
           (''meanings'', JArr [sample_meaning])]"

definition offline :: env where
  "offline = sample_env NetworkError None"

section \<open>Rule explainer: proofs\<close>

lemma suffix_loop_first_match:
  "first_match tbl base i \<Longrightarrow>
     suffix_loop tbl base rules = (map fst (take (Suc i) tbl), rules @ [snd (tbl ! i)])"
proof (induction tbl arbitrary: i)
  case Nil
  then show ?case by (simp add: first_match_def)
next
  case (Cons p tbl)
  obtain suf msg where p: "p = (suf, msg)" by (cases p)
  show ?case
  proof (cases i)
    case 0
    with Cons.prems p show ?thesis by (simp add: first_match_def)
  next
    case (Suc j)
    from Cons.prems Suc have nohead: "\<not> endswith base suf"
      using p by (simp add: first_match_def)
    from Cons.prems Suc have "first_match tbl base j"
      by (auto simp: first_match_def)
    from Cons.IH[OF this] nohead p Suc show ?thesis by simp
  qed
qed

lemma suffix_loop_no_match:
  "no_suffix_match tbl base \<Longrightarrow> suffix_loop tbl base rules = (map fst tbl, rules)"
  unfolding no_suffix_match_def by (induction tbl) auto

lemma pattern_texts_not_suffix:
  "Rule_VCC \<notin> suffix_texts" "Rule_CVC \<notin> suffix_texts"
  "Rule_multi \<notin> suffix_texts" "Rule_fallback \<notin> suffix_texts"
  by (auto simp: suffix_texts_def suffix_rules_def)

lemma nth_suffix_text: "i < length suffix_rules \<Longrightarrow> snd (suffix_rules ! i) \<in> suffix_texts"
  unfolding suffix_texts_def by (metis nth_mem image_eqI)

text \<open>
  No word ends with the suffixes of two entries of the fixed table: no suffix of the table
  is a suffix of another one.
\<close>

lemma endswith_suffix: "endswith s suf \<longleftrightarrow> suffix suf s"
proof
  assume "endswith s suf"
  then have "s = take (length s - length suf) s @ suf"
    by (metis append_take_drop_id endswith_def)
  then show "suffix suf s" by (metis suffixI)
next
  assume "suffix suf s"
  then obtain p where "s = p @ suf" by (auto simp: suffix_def)
  then show "endswith s suf" by (simp add: endswith_def)
qed

lemma suffix_rules_no_overlap:
  "list_all (\<lambda>p. list_all (\<lambda>q. suffix (fst p) (fst q) \<longrightarrow> p = q) suffix_rules) suffix_rules"
  by (simp add: suffix_rules_def suffix_Cons)

lemma suffix_rules_exclusive:
  assumes "p \<in> set suffix_rules" and "q \<in> set suffix_rules"
    and "endswith base (fst p)" and "endswith base (fst q)"
  shows "p = q"
proof -
  from assms(3,4) have "suffix (fst p) (fst q) \<or> suffix (fst q) (fst p)"
    by (simp add: endswith_suffix suffix_same_cases)
  with assms(1,2) suffix_rules_no_overlap show ?thesis
    by (auto simp: list_all_iff)
qed

section \<open>Claims about the rule explainer\<close>

text \<open>
  Claim C3. Suffix matching is first-match-wins in the order of the table. For the loop
  over any table: when entry \<open>i\<close> is the first entry whose suffix the word ends with, the
  loop appends the explanation of entry \<open>i\<close> and nothing else, and the suffixes it has
  tested are those of the entries \<open>0..i\<close>, whatever later entries would match. For the
  explainer with its fixed table: the only suffix explanation in the result is the one of
  the first matching entry, and no entry after it is tested.
\<close>

theorem suffix_first_match_wins:
  "(first_match tbl base i \<longrightarrow>
      suffix_loop tbl base rules = (map fst (take (Suc i) tbl), rules @ [snd (tbl ! i)]))
   \<and> (first_match suffix_rules (lower word) n \<longrightarrow>
      filter (\<lambda>r. r \<in> suffix_texts) (explain_syllable_rules word syllables)
        = [snd (suffix_rules ! n)]
      \<and> fst (suffix_loop suffix_rules (lower word) []) = map fst (take (Suc n) suffix_rules))"
proof (intro conjI impI)
  assume "first_match tbl base i"
  then show "suffix_loop tbl base rules = (map fst (take (Suc i) tbl), rules @ [snd (tbl ! i)])"
    by (rule suffix_loop_first_match)
next
  assume fm: "first_match suffix_rules (lower word) n"
  then have loop: "suffix_loop suffix_rules (lower word) [] =
      (map fst (take (Suc n) suffix_rules), [] @ [snd (suffix_rules ! n)])"
    by (rule suffix_loop_first_match)
  from fm have "n < length suffix_rules" by (simp add: first_match_def)
  then have mem: "snd (suffix_rules ! n) \<in> suffix_texts" by (rule nth_suffix_text)
  show "filter (\<lambda>r. r \<in> suffix_texts) (explain_syllable_rules word syllables)
        = [snd (suffix_rules ! n)]"
    using loop mem by (simp add: explain_syllable_rules_def Let_def pattern_texts_not_suffix)
  show "fst (suffix_loop suffix_rules (lower word) []) = map fst (take (Suc n) suffix_rules)"
    using loop by simp
qed

text \<open>
  The witness: a synthetic table in which the word \<open>sing\<close> ends with all three suffixes,
  and the word \<open>Teacher\<close> on the fixed table (entry 3 is \<open>er\<close>).
\<close>

theorem suffix_first_match_wins_witness:
  "first_match [(''ing'', Rule_ing), (''ng'', Rule_er), (''g'', Rule_or)] ''sing'' 0
   \<and> endswith ''sing'' ''ng'' \<and> endswith ''sing'' ''g''
   \<and> suffix_loop [(''ing'', Rule_ing), (''ng'', Rule_er), (''g'', Rule_or)] ''sing'' []
       = ([''ing''], [Rule_ing])
   \<and> first_match suffix_rules (lower ''Teacher'') 3
   \<and> filter (\<lambda>r. r \<in> suffix_texts) (explain_syllable_rules ''Teacher'' [''teach'', ''er''])
       = [Rule_er]
   \<and> fst (suffix_loop suffix_rules (lower ''Teacher'') []) = [''tion'', ''sion'', ''ing'', ''er'']"
proof -
  have h1: "first_match [(''ing'', Rule_ing), (''ng'', Rule_er), (''g'', Rule_or)] ''sing'' 0"
    by (simp add: first_match_def endswith_def)
  have h2: "first_match suffix_rules (lower ''Teacher'') 3"
    by code_simp
  have e: "endswith ''sing'' ''ng'' \<and> endswith ''sing'' ''g''"
    by (simp add: endswith_def)
  from suffix_first_match_wins
         [of "[(''ing'', Rule_ing), (''ng'', Rule_er), (''g'', Rule_or)]" "''sing''" 0 "[]"
             "''Teacher''" 3 "[''teach'', ''er'']"] h1 h2 e
  show ?thesis by (simp add: suffix_rules_def)
qed

text \<open>
  Claim C6. The explainer never returns an empty list; when no suffix of the table
  matches, neither spelling pattern is found and there are fewer than three syllables,
  the result is the single generic fallback message.
\<close>

theorem explain_never_empty:
  "explain_syllable_rules word syllables \<noteq> []
   \<and> (no_suffix_match suffix_rules (lower word)
        \<and> \<not> search_vcc (lower word) \<and> \<not> search_cvc (lower word)
        \<and> \<not> length syllables \<ge> 3
      \<longrightarrow> explain_syllable_rules word syllables = [Rule_fallback])"
proof (intro conjI impI)
  show "explain_syllable_rules word syllables \<noteq> []"
    by (simp add: explain_syllable_rules_def Let_def)
next
  assume h: "no_suffix_match suffix_rules (lower word)
        \<and> \<not> search_vcc (lower word) \<and> \<not> search_cvc (lower word)
        \<and> \<not> length syllables \<ge> 3"
  then have "suffix_loop suffix_rules (lower word) [] = (map fst suffix_rules, [])"
    using suffix_loop_no_match by blast
  with h show "explain_syllable_rules word syllables = [Rule_fallback]"
    by (simp add: explain_syllable_rules_def Let_def)
qed

theorem explain_never_empty_witness:
  "no_suffix_match suffix_rules (lower ''a'')
   \<and> \<not> search_vcc (lower ''a'') \<and> \<not> search_cvc (lower ''a'')
   \<and> \<not> length [''a''] \<ge> 3
   \<and> explain_syllable_rules ''a'' [''a''] \<noteq> []
   \<and> explain_syllable_rules ''a'' [''a''] = [Rule_fallback]"
proof -
  have h: "no_suffix_match suffix_rules (lower ''a'')
        \<and> \<not> search_vcc (lower ''a'') \<and> \<not> search_cvc (lower ''a'')
        \<and> \<not> length [''a''] \<ge> 3"
    by code_simp
  from explain_never_empty [of "''a''" "[''a'']"] h show ?thesis by simp
qed

section \<open>Dictionary resolver: failures and the cache\<close>

lemma first_item_None: "first_item js = None \<longleftrightarrow> \<not> is_nonempty_array js"
  by (cases js rule: is_nonempty_array.cases) simp_all

lemma fetch_failure_base:
  "fetch_failure ev (urlopen ev reqs key) \<Longrightarrow> fetch_word_info_from_api ev reqs key = Inr base_result"
  by (cases "urlopen ev reqs key")
     (auto simp: fetch_word_info_from_api_def first_item_None[symmetric] split: option.splits)

lemma get_word_info_hit:
  "map_of (dict_cache st) (lower word) = Some info \<Longrightarrow> get_word_info ev word st = (Inr info, st)"
  by (simp add: get_word_info_def)

lemma get_word_info_miss:
  "map_of (dict_cache st) (lower word) = None \<Longrightarrow>
   fetch_word_info_from_api ev (requests st) (lower word) = Inr info \<Longrightarrow>
   get_word_info ev word st =
     (Inr info, st\<lparr>requests := requests st @ [lower word],
                   dict_cache := dict_cache st @ [(lower word, info)]\<rparr>)"
  by (simp add: get_word_info_def Let_def)

text \<open>
  Claim C1. When the word is not in the cache and the fetch fails (the network raises, the
  status is not 200, the body does not parse, or it parses to something that is not a
  non-empty array), the fetch returns the all-empty record and raises nothing,
  \<open>get_word_info\<close> returns that record, stores it in the cache under the lowercase word
  and has made one request; a second call returns the same record and leaves the state,
  the list of requests included, as it is.
\<close>

theorem failed_fetch_is_cached:
  assumes miss: "map_of (dict_cache st) (lower word) = None"
    and fail: "fetch_failure ev (urlopen ev (requests st) (lower word))"
  shows "fetch_word_info_from_api ev (requests st) (lower word) = Inr base_result
     \<and> fst (get_word_info ev word st) = Inr base_result
     \<and> map_of (dict_cache (snd (get_word_info ev word st))) (lower word) = Some base_result
     \<and> requests (snd (get_word_info ev word st)) = requests st @ [lower word]
     \<and> get_word_info ev word (snd (get_word_info ev word st))
         = (Inr base_result, snd (get_word_info ev word st))"
proof -
  let ?st' = "st\<lparr>requests := requests st @ [lower word],
                 dict_cache := dict_cache st @ [(lower word, base_result)]\<rparr>"
  have f: "fetch_word_info_from_api ev (requests st) (lower word) = Inr base_result"
    using fail by (rule fetch_failure_base)
  have g: "get_word_info ev word st = (Inr base_result, ?st')"
    using miss f by (rule get_word_info_miss)
  have c: "map_of (dict_cache ?st') (lower word) = Some base_result"
    using miss by (simp add: map_add_def)
  have again: "get_word_info ev word ?st' = (Inr base_result, ?st')"
    using c by (rule get_word_info_hit)
  show ?thesis using f g c again by simp
qed

text \<open>The witness: a response with status 200 whose body does not parse.\<close>

theorem failed_fetch_is_cached_witness:
  "map_of (dict_cache initial_state) (lower ''Cat'') = None
   \<and> fetch_failure (sample_env (Response 200 ''<html>'') None)
        (urlopen (sample_env (Response 200 ''<html>'') None) (requests initial_state) (lower ''Cat''))
   \<and> fst (get_word_info (sample_env (Response 200 ''<html>'') None) ''Cat'' initial_state)
        = Inr base_result
   \<and> requests (snd (get_word_info (sample_env (Response 200 ''<html>'') None) ''Cat'' initial_state))
        = [''cat'']
   \<and> get_word_info (sample_env (Response 200 ''<html>'') None) ''Cat''
        (snd (get_word_info (sample_env (Response 200 ''<html>'') None) ''Cat'' initial_state))
        = (Inr base_result,
           snd (get_word_info (sample_env (Response 200 ''<html>'') None) ''Cat'' initial_state))"
proof -
  have h1: "map_of (dict_cache initial_state) (lower ''Cat'') = None"
    by (simp add: initial_state_def)
  have h2: "fetch_failure (sample_env (Response 200 ''<html>'') None)
        (urlopen (sample_env (Response 200 ''<html>'') None) (requests initial_state) (lower ''Cat''))"
    by (simp add: sample_env_def)
  have l: "lower ''Cat'' = ''cat''" by code_simp
  from failed_fetch_is_cached [OF h1 h2] h1 h2 l show ?thesis
    by (simp add: initial_state_def)
qed

section \<open>The main loop: what one word changes\<close>


lemma split_on_length: "1 \<le> length (split_on sep cur s)"
  by (induction s arbitrary: cur) auto

lemma clean_empty_iff: "clean w = [] \<longleftrightarrow> no_kept_char w"
  by (simp add: clean_def no_kept_char_def filter_empty_conv)

lemma process_word_skip: "clean w = [] \<Longrightarrow> process_word ev w st = (None, st)"
  by (simp add: process_word_def)

lemma get_word_info_frame:
  "get_word_info ev word st = (r, st') \<Longrightarrow>
     history st' = history st \<and> total_words st' = total_words st
     \<and> total_syllables st' = total_syllables st \<and> cards st' = cards st
     \<and> clock_reads st' = clock_reads st"
  by (auto simp: get_word_info_def Let_def split: option.splits sum.splits)

lemma get_word_info_cached:
  "get_word_info ev word st = (Inr info, st') \<Longrightarrow> map_of (dict_cache st') (lower word) = Some info"
  by (auto simp: get_word_info_def Let_def map_add_def split: option.splits sum.splits)

lemma process_word_history:
  assumes "process_word ev w st = (r, st')"
  shows "history st' = history st \<or>
     (r = None \<and> clean w \<noteq> [] \<and>
       (\<exists>i n. history st' =
           update_history (history st) (lower (clean w)) w
             (join_with [CHR 0xB7] (split_on CHR ''-'' [] (inserted ev (lower (clean w)))))
             (length (split_on CHR ''-'' [] (inserted ev (lower (clean w))))) i n))"
proof (cases "clean w = []")
  case True
  with assms show ?thesis by (simp add: process_word_def)
next
  case False
  let ?base = "lower (clean w)"
  let ?syl = "split_on CHR ''-'' [] (inserted ev ?base)"
  let ?st0 = "st\<lparr>total_words := total_words st + 1,
                  total_syllables := total_syllables st + length ?syl\<rparr>"
  obtain res s1 where g: "get_word_info ev ?base ?st0 = (res, s1)"
    by (cases "get_word_info ev ?base ?st0")
  from get_word_info_frame[OF g] have h1: "history s1 = history st" by simp
  show ?thesis
  proof (cases res)
    case (Inl e)
    with assms False g have "st' = s1" by (simp add: process_word_def Let_def)
    with h1 show ?thesis by simp
  next
    case (Inr info)
    with assms False g h1
    have "r = None \<and> history st' =
           update_history (history st) ?base w (join_with [CHR 0xB7] ?syl) (length ?syl)
             (case ipa info of Some s \<Rightarrow> s | None \<Rightarrow> []) (now_str ev (clock_reads s1))"
      by (auto simp: process_word_def Let_def)
    with False show ?thesis by blast
  qed
qed

lemma process_word_totals:
  assumes "process_word ev w st = (r, st')" and "total_words st \<le> total_syllables st"
  shows "total_words st' \<le> total_syllables st'"
proof (cases "clean w = []")
  case True
  with assms show ?thesis by (simp add: process_word_def)
next
  case False
  let ?base = "lower (clean w)"
  let ?syl = "split_on CHR ''-'' [] (inserted ev ?base)"
  let ?st0 = "st\<lparr>total_words := total_words st + 1,
                  total_syllables := total_syllables st + length ?syl\<rparr>"
  obtain res s1 where g: "get_word_info ev ?base ?st0 = (res, s1)"
    by (cases "get_word_info ev ?base ?st0")
  have len: "1 \<le> length ?syl" by (rule split_on_length)
  from get_word_info_frame[OF g] assms(2) len
  have h1: "total_words s1 \<le> total_syllables s1" by simp
  show ?thesis
  proof (cases res)
    case (Inl e)
    with assms False g have "st' = s1" by (simp add: process_word_def Let_def)
    with h1 show ?thesis by simp
  next
    case (Inr info)
    with assms False g h1 show ?thesis
      by (auto simp: process_word_def Let_def)
  qed
qed

section \<open>The ledger update\<close>

lemma update_history_absent:
  assumes "map_of h base = None"
  shows "map_of (update_history h base w pretty cnt i now) base =
       Some \<lparr>h_time = now, h_count = 1, h_raw = w, h_word = base,
             h_split = pretty, h_syllables = cnt, h_ipa = i\<rparr>
     \<and> map fst (update_history h base w pretty cnt i now) = map fst h @ [base]"
proof -
  have d: "update_history h base w pretty cnt i now =
      AList.update base \<lparr>h_time = now, h_count = 1, h_raw = w, h_word = base,
             h_split = pretty, h_syllables = cnt, h_ipa = i\<rparr> h"
    using assms by (simp add: update_history_def)
  have n: "base \<notin> set (map fst h)"
    using assms by (simp add: map_of_eq_None_iff)
  show ?thesis unfolding d using n by (simp add: update_conv' update_keys)
qed

lemma update_history_present:
  assumes "map_of h base = Some e"
  shows "map_of (update_history h base w pretty cnt i now) base =
       Some \<lparr>h_time = now, h_count = h_count e + 1, h_raw = w, h_word = h_word e,
             h_split = pretty, h_syllables = cnt, h_ipa = i\<rparr>
     \<and> map fst (update_history h base w pretty cnt i now) = map fst h"
proof -
  have d: "update_history h base w pretty cnt i now =
      AList.update base (e\<lparr>h_time := now, h_count := h_count e + 1, h_raw := w,
                   h_split := pretty, h_syllables := cnt, h_ipa := i\<rparr>) h"
    using assms by (simp add: update_history_def)
  have "(base, e) \<in> set h" using assms by (rule map_of_SomeD)
  then have n: "base \<in> set (map fst h)" by force
  show ?thesis unfolding d using n by (simp add: update_conv' update_keys)
qed

lemma update_history_other:
  "k \<noteq> base \<Longrightarrow> map_of (update_history h base w pretty cnt i now) k = map_of h k"
  by (simp add: update_history_def update_conv' split: option.splits)

lemma update_history_distinct:
  "distinct (map fst h) \<Longrightarrow> distinct (map fst (update_history h base w pretty cnt i now))"
  by (simp add: update_history_def distinct_update split: option.splits)

lemma key_inv_update:
  "key_inv h \<Longrightarrow> h_word v = k \<Longrightarrow> key_inv (AList.update k v h)"
  by (induction h) (auto simp: key_inv_def)

lemma update_history_key_inv:
  assumes "key_inv h"
  shows "key_inv (update_history h base w pretty cnt i now)"
proof (cases "map_of h base")
  case None
  with assms show ?thesis by (simp add: update_history_def key_inv_update)
next
  case (Some e)
  then have "(base, e) \<in> set h" by (rule map_of_SomeD)
  with assms have "h_word e = base" by (auto simp: key_inv_def)
  with assms Some show ?thesis by (simp add: update_history_def key_inv_update)
qed

lemma syllables_inv_update:
  "syllables_inv h \<Longrightarrow> 1 \<le> h_syllables v \<Longrightarrow> syllables_inv (AList.update k v h)"
  by (induction h) (auto simp: syllables_inv_def)

lemma update_history_syllables_inv:
  "syllables_inv h \<Longrightarrow> 1 \<le> cnt \<Longrightarrow> syllables_inv (update_history h base w pretty cnt i now)"
  by (simp add: update_history_def syllables_inv_update split: option.splits)

section \<open>Invariants of the session\<close>

lemma process_word_ledger_ok:
  assumes "process_word ev w st = (r, st')" and "ledger_ok (history st)"
  shows "ledger_ok (history st')"
  using process_word_history[OF assms(1)] assms(2)
  by (auto simp: ledger_ok_def update_history_distinct update_history_key_inv)

lemma process_word_syllables_inv:
  assumes "process_word ev w st = (r, st')" and "syllables_inv (history st)"
  shows "syllables_inv (history st')"
proof -
  from process_word_history[OF assms(1)]
  consider "history st' = history st"
    | i n where "history st' =
           update_history (history st) (lower (clean w)) w
             (join_with [CHR 0xB7] (split_on CHR ''-'' [] (inserted ev (lower (clean w)))))
             (length (split_on CHR ''-'' [] (inserted ev (lower (clean w))))) i n"
    by blast
  then show ?thesis
  proof cases
    case 1
    with assms(2) show ?thesis by simp
  next
    case 2
    have "syllables_inv (update_history (history st) (lower (clean w)) w
             (join_with [CHR 0xB7] (split_on CHR ''-'' [] (inserted ev (lower (clean w)))))
             (length (split_on CHR ''-'' [] (inserted ev (lower (clean w))))) i n)"
      using assms(2) split_on_length by (rule update_history_syllables_inv)
    with 2 show ?thesis by simp
  qed
qed

lemma process_words_ledger_ok:
  "process_words ev ws st = (r, st') \<Longrightarrow> ledger_ok (history st) \<Longrightarrow> ledger_ok (history st')"
proof (induction ws arbitrary: st)
  case Nil
  then show ?case by simp
next
  case (Cons w ws)
  obtain r1 s1 where p: "process_word ev w st = (r1, s1)" by (cases "process_word ev w st")
  from process_word_ledger_ok[OF p Cons.prems(2)] have ok: "ledger_ok (history s1)" .
  show ?case
  proof (cases r1)
    case None
    with Cons.prems(1) p have "process_words ev ws s1 = (r, st')" by simp
    from Cons.IH[OF this ok] show ?thesis .
  next
    case (Some e)
    with Cons.prems(1) p have "st' = s1" by simp
    with ok show ?thesis by simp
  qed
qed

lemma process_words_syllables_inv:
  "process_words ev ws st = (r, st') \<Longrightarrow> syllables_inv (history st)
     \<Longrightarrow> syllables_inv (history st')"
proof (induction ws arbitrary: st)
  case Nil
  then show ?case by simp
next
  case (Cons w ws)
  obtain r1 s1 where p: "process_word ev w st = (r1, s1)" by (cases "process_word ev w st")
  from process_word_syllables_inv[OF p Cons.prems(2)] have ok: "syllables_inv (history s1)" .
  show ?case
  proof (cases r1)
    case None
    with Cons.prems(1) p have "process_words ev ws s1 = (r, st')" by simp
    from Cons.IH[OF this ok] show ?thesis .
  next
    case (Some e)
    with Cons.prems(1) p have "st' = s1" by simp
    with ok show ?thesis by simp
  qed
qed

lemma process_words_totals:
  "process_words ev ws st = (r, st') \<Longrightarrow> total_words st \<le> total_syllables st
     \<Longrightarrow> total_words st' \<le> total_syllables st'"
proof (induction ws arbitrary: st)
  case Nil
  then show ?case by simp
next
  case (Cons w ws)
  obtain r1 s1 where p: "process_word ev w st = (r1, s1)" by (cases "process_word ev w st")
  from process_word_totals[OF p Cons.prems(2)] have ok: "total_words s1 \<le> total_syllables s1" .
  show ?case
  proof (cases r1)
    case None
    with Cons.prems(1) p have "process_words ev ws s1 = (r, st')" by simp
    from Cons.IH[OF this ok] show ?thesis .
  next
    case (Some e)
    with Cons.prems(1) p have "st' = s1" by simp
    with ok show ?thesis by simp
  qed
qed

lemma run_script_totals:
  "run_script ev input st = (r, st') \<Longrightarrow> total_words st' \<le> total_syllables st'"
  unfolding run_script_def Let_def
  by (auto split: if_splits dest!: process_words_totals)

lemma run_script_ledger_ok:
  "run_script ev input st = (r, st') \<Longrightarrow> ledger_ok (history st) \<Longrightarrow> ledger_ok (history st')"
  unfolding run_script_def Let_def
  by (auto split: if_splits dest!: process_words_ledger_ok)

lemma run_script_syllables_inv:
  "run_script ev input st = (r, st') \<Longrightarrow> syllables_inv (history st)
     \<Longrightarrow> syllables_inv (history st')"
  unfolding run_script_def Let_def
  by (auto split: if_splits dest!: process_words_syllables_inv)

lemma reachable_ledger_ok: "reachable ev st \<Longrightarrow> ledger_ok (history st)"
proof (induction rule: reachable.induct)
  case start
  show ?case by (simp add: initial_state_def ledger_ok_def key_inv_def)
next
  case (rerun st input r st')
  then show ?case using run_script_ledger_ok by blast
next
  case (clear st)
  show ?case by (simp add: ledger_ok_def key_inv_def)
qed

lemma reachable_syllables_inv: "reachable ev st \<Longrightarrow> syllables_inv (history st)"
proof (induction rule: reachable.induct)
  case start
  show ?case by (simp add: initial_state_def syllables_inv_def)
next
  case (rerun st input r st')
  then show ?case using run_script_syllables_inv by blast
next
  case (clear st)
  show ?case by (simp add: syllables_inv_def)
qed

lemma reachable_totals: "reachable ev st \<Longrightarrow> total_words st \<le> total_syllables st"
proof (induction rule: reachable.induct)
  case start
  show ?case by (simp add: initial_state_def)
next
  case (rerun st input r st')
  then show ?case using run_script_totals by blast
next
  case (clear st)
  then show ?case by simp
qed

lemma process_word_done:
  assumes "process_word ev w st = (None, st')" and "clean w \<noteq> []"
  shows "\<exists>i n. history st' =
           update_history (history st) (lower (clean w)) w
             (join_with [CHR 0xB7] (split_on CHR ''-'' [] (inserted ev (lower (clean w)))))
             (length (split_on CHR ''-'' [] (inserted ev (lower (clean w))))) i n"
proof -
  let ?base = "lower (clean w)"
  let ?syl = "split_on CHR ''-'' [] (inserted ev ?base)"
  let ?st0 = "st\<lparr>total_words := total_words st + 1,
                  total_syllables := total_syllables st + length ?syl\<rparr>"
  obtain res s1 where g: "get_word_info ev ?base ?st0 = (res, s1)"
    by (cases "get_word_info ev ?base ?st0")
  from get_word_info_frame[OF g] have h1: "history s1 = history st" by simp
  show ?thesis
  proof (cases res)
    case (Inl e)
    with assms g show ?thesis by (simp add: process_word_def Let_def)
  next
    case (Inr info)
    with assms g h1
    have "history st' =
           update_history (history st) ?base w (join_with [CHR 0xB7] ?syl) (length ?syl)
             (case ipa info of Some s \<Rightarrow> s | None \<Rightarrow> []) (now_str ev (clock_reads s1))"
      by (auto simp: process_word_def Let_def)
    then show ?thesis by blast
  qed
qed

lemma process_word_fills_cache:
  assumes "process_word ev w st = (None, st')" and "clean w \<noteq> []"
  shows "map_of (dict_cache st') (lower (lower (clean w))) \<noteq> None"
proof -
  let ?base = "lower (clean w)"
  let ?syl = "split_on CHR ''-'' [] (inserted ev ?base)"
  let ?st0 = "st\<lparr>total_words := total_words st + 1,
                  total_syllables := total_syllables st + length ?syl\<rparr>"
  obtain res s1 where g: "get_word_info ev ?base ?st0 = (res, s1)"
    by (cases "get_word_info ev ?base ?st0")
  show ?thesis
  proof (cases res)
    case (Inl e)
    with assms g show ?thesis by (simp add: process_word_def Let_def)
  next
    case (Inr info)
    with g have "map_of (dict_cache s1) (lower ?base) = Some info"
      by (simp add: get_word_info_cached)
    with assms g Inr show ?thesis by (auto simp: process_word_def Let_def)
  qed
qed

lemma process_word_cache_hit:
  assumes "clean w \<noteq> []" and "map_of (dict_cache st) (lower (lower (clean w))) \<noteq> None"
  shows "fst (process_word ev w st) = None"
proof -
  from assms(2) obtain info where "map_of (dict_cache st) (lower (lower (clean w))) = Some info"
    by blast
  then show ?thesis using assms(1)
    by (simp add: process_word_def Let_def get_word_info_hit)
qed

lemma process_words_append:
  "process_words ev (xs @ ys) st =
     (case process_words ev xs st of (Some e, s) \<Rightarrow> (Some e, s) | (None, s) \<Rightarrow> process_words ev ys s)"
  by (induction xs arbitrary: st) (auto split: prod.splits option.splits)

lemma computer_tokens:
  "clean ''Computer'' \<noteq> []" "lower (clean ''Computer'') = ''computer''"
  "clean ''COMPUTER'' \<noteq> []" "lower (clean ''COMPUTER'') = ''computer''"
  "lower ''computer'' = ''computer''"
  by code_simp+

lemma update_keeps_words:
  "map_of h k = Some e \<Longrightarrow> h_word v = h_word e \<Longrightarrow>
     map (\<lambda>(k, x). (k, h_word x)) (AList.update k v h) = map (\<lambda>(k, x). (k, h_word x)) h"
  by (induction h) auto

lemma singleton_ledger:
  assumes "map fst h = [k]" and "map_of h k = Some e"
  shows "h = [(k, e)]"
proof -
  from assms(1) obtain x where "h = [(k, x)]" by (cases h) auto
  with assms(2) show ?thesis by simp
qed

section \<open>Claims about the history ledger\<close>

text \<open>
  Claim C2. The ledger update is an upsert under the canonical word. A key that is absent
  gets a record with count 1 and is added at the end; for a key that is present the count
  grows by one, the timestamp, raw input, syllable breakdown, syllable count and IPA take
  the latest values, and the keys stay as they are; no other key is touched. Starting
  from an empty ledger, processing \<open>Computer\<close> and then \<open>COMPUTER\<close> leaves exactly one
  entry, under \<open>computer\<close>, with count 2; and when the first lookup returns, so does the
  second.
\<close>

theorem history_upsert:
  "(map_of h base = None \<longrightarrow>
      map_of (update_history h base w pretty cnt i now) base =
        Some \<lparr>h_time = now, h_count = 1, h_raw = w, h_word = base,
              h_split = pretty, h_syllables = cnt, h_ipa = i\<rparr>
      \<and> map fst (update_history h base w pretty cnt i now) = map fst h @ [base])
   \<and> (map_of h base = Some e \<longrightarrow>
      map_of (update_history h base w pretty cnt i now) base =
        Some \<lparr>h_time = now, h_count = h_count e + 1, h_raw = w, h_word = h_word e,
              h_split = pretty, h_syllables = cnt, h_ipa = i\<rparr>
      \<and> map fst (update_history h base w pretty cnt i now) = map fst h)
   \<and> (k \<noteq> base \<longrightarrow> map_of (update_history h base w pretty cnt i now) k = map_of h k)
   \<and> (history st = [] \<and> process_words ev [''Computer'', ''COMPUTER''] st = (None, st') \<longrightarrow>
        (\<exists>e'. history st' = [(''computer'', e')] \<and> h_count e' = 2))
   \<and> (fst (process_word ev ''Computer'' st) = None \<longrightarrow>
        fst (process_words ev [''Computer'', ''COMPUTER''] st) = None)"
proof -
  have c1: "map_of h base = None \<longrightarrow>
      map_of (update_history h base w pretty cnt i now) base =
        Some \<lparr>h_time = now, h_count = 1, h_raw = w, h_word = base,
              h_split = pretty, h_syllables = cnt, h_ipa = i\<rparr>
      \<and> map fst (update_history h base w pretty cnt i now) = map fst h @ [base]"
    using update_history_absent by blast
  have c2: "map_of h base = Some e \<longrightarrow>
      map_of (update_history h base w pretty cnt i now) base =
        Some \<lparr>h_time = now, h_count = h_count e + 1, h_raw = w, h_word = h_word e,
              h_split = pretty, h_syllables = cnt, h_ipa = i\<rparr>
      \<and> map fst (update_history h base w pretty cnt i now) = map fst h"
    using update_history_present by blast
  have c3: "k \<noteq> base \<longrightarrow> map_of (update_history h base w pretty cnt i now) k = map_of h k"
    using update_history_other by blast
  have c4: "history st = [] \<and> process_words ev [''Computer'', ''COMPUTER''] st = (None, st') \<longrightarrow>
        (\<exists>e'. history st' = [(''computer'', e')] \<and> h_count e' = 2)"
  proof
    assume a: "history st = [] \<and> process_words ev [''Computer'', ''COMPUTER''] st = (None, st')"
    obtain r1 s1 where p1: "process_word ev ''Computer'' st = (r1, s1)"
      by (cases "process_word ev ''Computer'' st")
    from a p1 have r1: "r1 = None" by (auto split: option.splits)
    from a p1 r1 have p2: "process_word ev ''COMPUTER'' s1 = (None, st')"
      by (auto split: prod.splits option.splits)
    from process_word_done[OF p1[unfolded r1] computer_tokens(1)] a
    obtain p1' c1 i1 n1 where h1: "history s1 = update_history [] ''computer'' ''Computer'' p1' c1 i1 n1"
      by (auto simp: computer_tokens)
    let ?e1 = "\<lparr>h_time = n1, h_count = 1, h_raw = ''Computer'', h_word = ''computer'',
                h_split = p1', h_syllables = c1, h_ipa = i1\<rparr>"
    have m1: "map_of (history s1) ''computer'' = Some ?e1"
      unfolding h1 using update_history_absent[of "[]" "''computer''"] by simp
    from process_word_done[OF p2 computer_tokens(3)]
    obtain p2' c2 i2 n2 where
      h2: "history st' = update_history (history s1) ''computer'' ''COMPUTER'' p2' c2 i2 n2"
      by (auto simp: computer_tokens)
    have k1: "map fst (history s1) = [''computer'']"
      unfolding h1 using update_history_absent[of "[]" "''computer''"] by simp
    from update_history_present[OF m1, of "''COMPUTER''" p2' c2 i2 n2] h2 k1
    have m2: "map_of (history st') ''computer'' =
          Some \<lparr>h_time = n2, h_count = 2, h_raw = ''COMPUTER'', h_word = ''computer'',
                h_split = p2', h_syllables = c2, h_ipa = i2\<rparr>"
      and k2: "map fst (history st') = [''computer'']"
      by simp_all
    from singleton_ledger[OF k2 m2]
    show "\<exists>e'. history st' = [(''computer'', e')] \<and> h_count e' = 2" by simp
  qed
  have c5: "fst (process_word ev ''Computer'' st) = None \<longrightarrow>
        fst (process_words ev [''Computer'', ''COMPUTER''] st) = None"
  proof
    assume a: "fst (process_word ev ''Computer'' st) = None"
    obtain s1 where p1: "process_word ev ''Computer'' st = (None, s1)"
      using a by (cases "process_word ev ''Computer'' st") simp
    from process_word_fills_cache[OF p1 computer_tokens(1)]
    have "map_of (dict_cache s1) (lower (lower (clean ''COMPUTER''))) \<noteq> None"
      by (simp add: computer_tokens)
    from process_word_cache_hit[OF computer_tokens(3) this]
    have "fst (process_word ev ''COMPUTER'' s1) = None" .
    with p1 show "fst (process_words ev [''Computer'', ''COMPUTER''] st) = None"
      by (auto split: prod.splits option.splits)
  qed
  show ?thesis by (intro conjI c1 c2 c3 c4 c5)
qed


text \<open>
  The witness: the create branch on the empty ledger, the update branch on the ledger it
  gives, and the two tokens processed with the network down.
\<close>

theorem history_upsert_witness:
  "map_of ([] :: (string \<times> history_record) list) ''computer'' = None
   \<and> map_of (update_history [] ''computer'' ''Computer'' ''com-put-er'' 3 ''/k/'' ''t1'') ''computer''
       = Some \<lparr>h_time = ''t1'', h_count = 1, h_raw = ''Computer'', h_word = ''computer'',
               h_split = ''com-put-er'', h_syllables = 3, h_ipa = ''/k/''\<rparr>
   \<and> map_of [(''computer'', \<lparr>h_time = ''t1'', h_count = 1, h_raw = ''Computer'',
                 h_word = ''computer'', h_split = ''com-put-er'', h_syllables = 3, h_ipa = ''/k/''\<rparr>)]
         ''computer''
       = Some \<lparr>h_time = ''t1'', h_count = 1, h_raw = ''Computer'',
                 h_word = ''computer'', h_split = ''com-put-er'', h_syllables = 3, h_ipa = ''/k/''\<rparr>
   \<and> map_of (update_history
         [(''computer'', \<lparr>h_time = ''t1'', h_count = 1, h_raw = ''Computer'',
                 h_word = ''computer'', h_split = ''com-put-er'', h_syllables = 3, h_ipa = ''/k/''\<rparr>)]
         ''computer'' ''COMPUTER'' ''com-put-er'' 3 [] ''t2'') ''computer''
       = Some \<lparr>h_time = ''t2'', h_count = 2, h_raw = ''COMPUTER'', h_word = ''computer'',
               h_split = ''com-put-er'', h_syllables = 3, h_ipa = []\<rparr>
   \<and> ''cat'' \<noteq> ''computer''
   \<and> map_of (update_history [] ''computer'' ''Computer'' ''com-put-er'' 3 ''/k/'' ''t1'') ''cat'' = None
   \<and> history initial_state = []
   \<and> process_words offline [''Computer'', ''COMPUTER''] initial_state
       = (None, snd (process_words offline [''Computer'', ''COMPUTER''] initial_state))
   \<and> map fst (history (snd (process_words offline [''Computer'', ''COMPUTER''] initial_state)))
       = [''computer'']
   \<and> map (\<lambda>p. h_count (snd p))
        (history (snd (process_words offline [''Computer'', ''COMPUTER''] initial_state))) = [2]
   \<and> fst (process_word offline ''Computer'' initial_state) = None"
proof -
  let ?e1 = "\<lparr>h_time = ''t1'', h_count = 1, h_raw = ''Computer'',
                 h_word = ''computer'', h_split = ''com-put-er'', h_syllables = 3, h_ipa = ''/k/''\<rparr>"
  have a1: "map_of ([] :: (string \<times> history_record) list) ''computer'' = None" by simp
  have a2: "map_of [(''computer'', ?e1)] ''computer'' = Some ?e1" by simp
  have a3: "''cat'' \<noteq> ''computer''" by simp
  have a4: "history initial_state = []" by (simp add: initial_state_def)
  have a5: "fst (process_word offline ''Computer'' initial_state) = None" by code_simp
  have a6: "fst (process_words offline [''Computer'', ''COMPUTER''] initial_state) = None"
    by code_simp
  have a7: "process_words offline [''Computer'', ''COMPUTER''] initial_state
       = (None, snd (process_words offline [''Computer'', ''COMPUTER''] initial_state))"
    using a6 by (metis prod.collapse)
  note u1 = history_upsert
         [of "[]" "''computer''" "''Computer''" "''com-put-er''" 3 "''/k/''" "''t1''" ?e1 "''cat''"
             initial_state offline
             "snd (process_words offline [''Computer'', ''COMPUTER''] initial_state)"]
  note u2 = history_upsert
         [of "[(''computer'', ?e1)]" "''computer''" "''COMPUTER''" "''com-put-er''" 3 "[]" "''t2''" ?e1
             "''cat''" initial_state offline initial_state]
  from u1 a1 have b1:
    "map_of (update_history [] ''computer'' ''Computer'' ''com-put-er'' 3 ''/k/'' ''t1'') ''computer''
       = Some ?e1" by simp
  from u2 a2 have b2: "map_of (update_history [(''computer'', ?e1)]
         ''computer'' ''COMPUTER'' ''com-put-er'' 3 [] ''t2'') ''computer''
       = Some \<lparr>h_time = ''t2'', h_count = 2, h_raw = ''COMPUTER'', h_word = ''computer'',
               h_split = ''com-put-er'', h_syllables = 3, h_ipa = []\<rparr>" by simp
  from u1 a3 have b3:
    "map_of (update_history [] ''computer'' ''Computer'' ''com-put-er'' 3 ''/k/'' ''t1'') ''cat'' = None"
    by simp
  from u1 a4 a7 obtain e' where
    "history (snd (process_words offline [''Computer'', ''COMPUTER''] initial_state))
       = [(''computer'', e')]" and "h_count e' = 2"
    by blast
  then have b4:
    "map fst (history (snd (process_words offline [''Computer'', ''COMPUTER''] initial_state)))
       = [''computer'']"
    "map (\<lambda>p. h_count (snd p))
        (history (snd (process_words offline [''Computer'', ''COMPUTER''] initial_state))) = [2]"
    by simp_all
  show ?thesis by (intro conjI a1 a2 a3 a4 a5 a7 b1 b2 b3 b4)
qed

text \<open>
  Claim C9. Every record of the ledger carries, as its canonical word, the key it is
  stored under. The update keeps this: the create branch stores the key in the field, the
  update branch changes neither the keys nor the field of any entry. So it holds in every
  state of a session, and the key a processed token is stored under is its cleaned word in
  lowercase.
\<close>

theorem canonical_word_is_key:
  "(key_inv h \<longrightarrow> key_inv (update_history h base w pretty cnt i now))
   \<and> (map_of h base = None \<longrightarrow>
        map_option h_word (map_of (update_history h base w pretty cnt i now) base) = Some base)
   \<and> (map_of h base = Some e \<longrightarrow>
        map (\<lambda>(k, x). (k, h_word x)) (update_history h base w pretty cnt i now)
          = map (\<lambda>(k, x). (k, h_word x)) h)
   \<and> (reachable ev st \<longrightarrow> key_inv (history st))
   \<and> (process_word ev tok st = (None, st') \<and> clean tok \<noteq> [] \<longrightarrow>
        (\<exists>x. map_of (history st') (lower (clean tok)) = Some x \<and> h_raw x = tok))"
proof -
  have c1: "key_inv h \<longrightarrow> key_inv (update_history h base w pretty cnt i now)"
    using update_history_key_inv by blast
  have c2: "map_of h base = None \<longrightarrow>
        map_option h_word (map_of (update_history h base w pretty cnt i now) base) = Some base"
    using update_history_absent[of h base w pretty cnt i now] by simp
  have c3: "map_of h base = Some e \<longrightarrow>
        map (\<lambda>(k, x). (k, h_word x)) (update_history h base w pretty cnt i now)
          = map (\<lambda>(k, x). (k, h_word x)) h"
    by (simp add: update_history_def update_keeps_words)
  have c4: "reachable ev st \<longrightarrow> key_inv (history st)"
    using reachable_ledger_ok by (auto simp: ledger_ok_def)
  have c5: "process_word ev tok st = (None, st') \<and> clean tok \<noteq> [] \<longrightarrow>
        (\<exists>x. map_of (history st') (lower (clean tok)) = Some x \<and> h_raw x = tok)"
  proof
    assume a: "process_word ev tok st = (None, st') \<and> clean tok \<noteq> []"
    then obtain p c j n where
      h: "history st' = update_history (history st) (lower (clean tok)) tok p c j n"
      using process_word_done by blast
    show "\<exists>x. map_of (history st') (lower (clean tok)) = Some x \<and> h_raw x = tok"
    proof (cases "map_of (history st) (lower (clean tok))")
      case None
      from update_history_absent[OF None, of tok p c j n] h show ?thesis by simp
    next
      case (Some e0)
      from update_history_present[OF Some, of tok p c j n] h show ?thesis by simp
    qed
  qed
  show ?thesis by (intro conjI c1 c2 c3 c4 c5)
qed

text \<open>
  The witness: the update branch and the create branch on small ledgers, and the state
  after one run on \<open>Computer\<close> with the network down.
\<close>

theorem canonical_word_is_key_witness:
  "key_inv [(''computer'', \<lparr>h_time = ''t1'', h_count = 1, h_raw = ''Computer'',
              h_word = ''computer'', h_split = ''com-put-er'', h_syllables = 3, h_ipa = []\<rparr>)]
   \<and> key_inv (update_history
        [(''computer'', \<lparr>h_time = ''t1'', h_count = 1, h_raw = ''Computer'',
              h_word = ''computer'', h_split = ''com-put-er'', h_syllables = 3, h_ipa = []\<rparr>)]
        ''computer'' ''COMPUTER'' ''com-put-er'' 3 [] ''t2'')
   \<and> map_of ([] :: (string \<times> history_record) list) ''cat'' = None
   \<and> map_option h_word (map_of (update_history [] ''cat'' ''Cat!'' ''cat'' 1 [] ''t1'') ''cat'')
       = Some ''cat''
   \<and> map (\<lambda>(k, x). (k, h_word x)) (update_history
        [(''computer'', \<lparr>h_time = ''t1'', h_count = 1, h_raw = ''Computer'',
              h_word = ''computer'', h_split = ''com-put-er'', h_syllables = 3, h_ipa = []\<rparr>)]
        ''computer'' ''COMPUTER'' ''com-put-er'' 3 [] ''t2'')
       = [(''computer'', ''computer'')]
   \<and> reachable offline (snd (run_script offline ''Computer'' initial_state))
   \<and> key_inv (history (snd (run_script offline ''Computer'' initial_state)))
   \<and> process_word offline ''Computer'' initial_state
       = (None, snd (process_word offline ''Computer'' initial_state))
   \<and> clean ''Computer'' \<noteq> []
   \<and> map_option h_raw
        (map_of (history (snd (process_word offline ''Computer'' initial_state)))
           (lower (clean ''Computer''))) = Some ''Computer''"
proof -
  let ?e1 = "\<lparr>h_time = ''t1'', h_count = 1, h_raw = ''Computer'',
              h_word = ''computer'', h_split = ''com-put-er'', h_syllables = 3, h_ipa = []\<rparr>"
  let ?s1 = "snd (run_script offline ''Computer'' initial_state)"
  let ?s2 = "snd (process_word offline ''Computer'' initial_state)"
  have a1: "key_inv [(''computer'', ?e1)]" by (simp add: key_inv_def)
  have a2: "map_of ([] :: (string \<times> history_record) list) ''cat'' = None" by simp
  have a3: "map_of [(''computer'', ?e1)] ''computer'' = Some ?e1" by simp
  have a4: "reachable offline ?s1"
    by (rule reachable.rerun[OF reachable.start, of _ "''Computer''"
          "fst (run_script offline ''Computer'' initial_state)"]) simp
  have "fst (process_word offline ''Computer'' initial_state) = None" by code_simp
  then have a5: "process_word offline ''Computer'' initial_state = (None, ?s2)"
    by (metis prod.collapse)
  have a6: "clean ''Computer'' \<noteq> []" by code_simp
  note u1 = canonical_word_is_key
     [where h = "[(''computer'', ?e1)]" and base = "''computer''" and w = "''COMPUTER''"
        and pretty = "''com-put-er''" and cnt = 3 and i = "[]" and now = "''t2''" and e = ?e1
        and ev = offline and st = ?s1]
  note u2 = canonical_word_is_key
     [where h = "[]" and base = "''cat''" and w = "''Cat!''" and pretty = "''cat''" and cnt = 1
        and i = "[]" and now = "''t1''" and ev = offline and st = initial_state
        and tok = "''Computer''" and st' = ?s2]
  from u1 a1 have b1: "key_inv (update_history [(''computer'', ?e1)]
        ''computer'' ''COMPUTER'' ''com-put-er'' 3 [] ''t2'')" by blast
  from u2 a2 have b2:
    "map_option h_word (map_of (update_history [] ''cat'' ''Cat!'' ''cat'' 1 [] ''t1'') ''cat'')
       = Some ''cat''" by blast
  from u1 a3 have b3: "map (\<lambda>(k, x). (k, h_word x)) (update_history [(''computer'', ?e1)]
        ''computer'' ''COMPUTER'' ''com-put-er'' 3 [] ''t2'') = [(''computer'', ''computer'')]"
    by simp
  from u1 a4 have b4: "key_inv (history ?s1)" by blast
  from u2 a5 a6 obtain x where
    "map_of (history ?s2) (lower (clean ''Computer'')) = Some x" and "h_raw x = ''Computer''"
    by blast
  then have b5: "map_option h_raw (map_of (history ?s2) (lower (clean ''Computer'')))
      = Some ''Computer''" by simp
  show ?thesis by (intro conjI a1 b1 a2 b2 b3 a4 b4 a5 a6 b5)
qed

text \<open>
  Claim C10. Splitting on the hyphen gives at least one piece, so the syllable count of
  a processed word is at least 1. Hence every record of the ledger has a syllable count
  of at least 1 in every state of a session, and after a run of the script, also one
  that an exception ended, the total syllable count is at least the total word count.
\<close>

theorem syllable_count_positive:
  "1 \<le> length (split_on CHR ''-'' [] (inserted ev base))
   \<and> (reachable ev st \<longrightarrow> syllables_inv (history st) \<and> total_words st \<le> total_syllables st)
   \<and> (run_script ev input st = (r, st') \<longrightarrow> total_words st' \<le> total_syllables st')"
proof -
  have c1: "1 \<le> length (split_on CHR ''-'' [] (inserted ev base))"
    by (rule split_on_length)
  have c2: "reachable ev st \<longrightarrow> syllables_inv (history st) \<and> total_words st \<le> total_syllables st"
    using reachable_syllables_inv reachable_totals by blast
  have c3: "run_script ev input st = (r, st') \<longrightarrow> total_words st' \<le> total_syllables st'"
    using run_script_totals by blast
  show ?thesis by (intro conjI c1 c2 c3)
qed

text \<open>The witness: the state after one run on two tokens with the network down.\<close>

theorem syllable_count_positive_witness:
  "reachable offline (snd (run_script offline ''Computer it'' initial_state))
   \<and> syllables_inv (history (snd (run_script offline ''Computer it'' initial_state)))
   \<and> run_script offline ''Computer it'' initial_state
       = (fst (run_script offline ''Computer it'' initial_state),
          snd (run_script offline ''Computer it'' initial_state))
   \<and> total_words (snd (run_script offline ''Computer it'' initial_state)) = 2
   \<and> total_syllables (snd (run_script offline ''Computer it'' initial_state)) = 4
   \<and> total_words (snd (run_script offline ''Computer it'' initial_state))
       \<le> total_syllables (snd (run_script offline ''Computer it'' initial_state))"
proof -
  let ?r = "run_script offline ''Computer it'' initial_state"
  have a1: "reachable offline (snd ?r)"
    by (rule reachable.rerun[OF reachable.start, of _ "''Computer it''" "fst ?r"]) simp
  have a2: "?r = (fst ?r, snd ?r)" by simp
  have a3: "total_words (snd ?r) = 2" by code_simp
  have a4: "total_syllables (snd ?r) = 4" by code_simp
  note u1 = syllable_count_positive [where ev = offline and st = "snd ?r"]
  note u2 = syllable_count_positive
     [where ev = offline and st = initial_state and input = "''Computer it''"
        and r = "fst ?r" and st' = "snd ?r"]
  from u1 a1 have b1: "syllables_inv (history (snd ?r))" by blast
  from u2 a2 have b2: "total_words (snd ?r) \<le> total_syllables (snd ?r)" by blast
  show ?thesis by (intro conjI a1 b1 a2 a3 a4 b2)
qed

text \<open>
  Claim C7, as amended. A token without any ASCII letter and without an apostrophe is
  skipped: processing it returns the state as it was (the totals, the cards, the ledger,
  the cache and the request log), and the run over a list of tokens is the run over the
  list without it.
\<close>

theorem token_without_kept_char_skipped:
  "no_kept_char w \<Longrightarrow>
     process_word ev w st = (None, st)
     \<and> process_words ev (ws1 @ w # ws2) st = process_words ev (ws1 @ ws2) st"
proof -
  assume "no_kept_char w"
  then have c: "clean w = []" by (simp add: clean_empty_iff)
  then have s: "\<And>s. process_word ev w s = (None, s)" by (rule process_word_skip)
  have "process_words ev (ws1 @ w # ws2) st = process_words ev (ws1 @ ws2) st"
    by (simp add: process_words_append s split: prod.splits option.splits)
  with s show ?thesis by simp
qed

text \<open>
  The claim as stated fails on a token made of an apostrophe: it has no letter, and it is
  counted as a word with one syllable, gets a card and an entry in the ledger.
\<close>

theorem apostrophe_token_counterexample:
  "\<not> is_ascii_letter (CHR 0x27)
   \<and> fst (process_word offline [CHR 0x27] initial_state) = None
   \<and> total_words (snd (process_word offline [CHR 0x27] initial_state)) = 1
   \<and> total_syllables (snd (process_word offline [CHR 0x27] initial_state)) = 1
   \<and> length (cards (snd (process_word offline [CHR 0x27] initial_state))) = 1
   \<and> map fst (history (snd (process_word offline [CHR 0x27] initial_state))) = [[CHR 0x27]]"
  by code_simp

theorem token_without_kept_char_skipped_witness:
  "no_kept_char ''...''
   \<and> process_word offline ''...'' initial_state = (None, initial_state)
   \<and> process_words offline ([''Computer''] @ ''...'' # [''COMPUTER'']) initial_state
       = process_words offline ([''Computer''] @ [''COMPUTER'']) initial_state"
proof -
  have h: "no_kept_char ''...''" by code_simp
  from token_without_kept_char_skipped [OF h, of offline initial_state "[''Computer'']" "[''COMPUTER'']"] h
  show ?thesis by simp
qed

section \<open>Export\<close>

lemma key_inv_words: "key_inv h \<Longrightarrow> map h_word (records h) = map fst h"
  by (induction h) (auto simp: key_inv_def records_def)

lemma distinct_map_sort_key:
  "distinct (map g (sort_key f xs)) = distinct (map g xs)"
  by (simp add: distinct_map)

lemma row_time_record_row: "row_time (record_row item) = h_time item"
  by (simp add: row_time_def record_row_def)

lemma row_word_record_row: "row_word (record_row item) = h_word item"
  by (simp add: row_word_def record_row_def)

lemma row_time_comp: "row_time \<circ> record_row = h_time"
  by (rule ext) (simp add: row_time_record_row)

lemma row_word_comp: "row_word \<circ> record_row = h_word"
  by (rule ext) (simp add: row_word_record_row)

lemma data_rows_sorted:
  "sorted (map row_time (map record_row (sort_key h_time (records h))))"
  by (simp add: row_time_comp)

lemma data_rows_words:
  assumes "ledger_ok h"
  shows "distinct (map row_word (map record_row (sort_key h_time (records h))))"
    and "set (map row_word (map record_row (sort_key h_time (records h)))) = fst ` set h"
    and "length (map record_row (sort_key h_time (records h))) = card (fst ` set h)"
proof -
  let ?rs = "sort_key h_time (records h)"
  have w: "map row_word (map record_row ?rs) = map h_word ?rs"
    by (simp add: row_word_comp)
  from assms have k: "map h_word (records h) = map fst h" and d: "distinct (map fst h)"
    by (simp_all add: ledger_ok_def key_inv_words)
  show "distinct (map row_word (map record_row ?rs))"
    unfolding w using k d by (simp add: distinct_map_sort_key)
  have "set (map h_word ?rs) = set (map h_word (records h))" by simp
  with k show "set (map row_word (map record_row ?rs)) = fst ` set h"
    unfolding w by simp
  have "card (fst ` set h) = length (map fst h)"
    using d by (metis distinct_card set_map)
  then show "length (map record_row ?rs) = card (fst ` set h)"
    by (simp add: records_def)
qed

lemma str_nat_digits: "c \<in> set (str_nat n) \<Longrightarrow> 48 \<le> (of_char c :: nat) \<and> (of_char c :: nat) \<le> 57"
proof (induction n arbitrary: c rule: str_nat.induct)
  case (1 n)
  show ?case
  proof (cases "n < 10")
    case True
    with "1.prems" have "c = char_of (48 + n)" by (simp add: str_nat.simps[of n])
    with True show ?thesis by simp
  next
    case False
    with "1.prems" have "c \<in> set (str_nat (n div 10)) \<or> c = char_of (48 + n mod 10)"
      by (auto simp: str_nat.simps[of n])
    then show ?thesis
    proof
      assume "c \<in> set (str_nat (n div 10))"
      with "1.IH" False show ?thesis by blast
    next
      assume c: "c = char_of (48 + n mod 10)"
      have "n mod 10 < 10" by simp
      then have "(48 + n mod 10) mod 256 = 48 + n mod 10" by simp
      with c show ?thesis by simp
    qed
  qed
qed

lemma of_char_newline: "(of_char c :: nat) = 10 \<longleftrightarrow> c = CHR 0x0A"
proof
  assume "(of_char c :: nat) = 10"
  then have "(of_char c :: nat) = of_char (CHR 0x0A)" by simp
  then show "c = CHR 0x0A" by (simp only: of_char_eq_iff)
next
  assume "c = CHR 0x0A"
  then show "(of_char c :: nat) = 10" by simp
qed

lemma code_points_newline: "10 \<in> set (code_points s) \<longleftrightarrow> has_newline s"
  by (auto simp: code_points_def has_newline_def of_char_newline)

lemma str_nat_newline: "10 \<notin> set (code_points (str_nat n))"
proof
  assume "10 \<in> set (code_points (str_nat n))"
  then obtain c where "c \<in> set (str_nat n)" "(of_char c :: nat) = 10"
    by (auto simp: code_points_def)
  with str_nat_digits[of c n] show False by simp
qed

lemma join_text_avoid:
  "\<forall>x \<in> set xs. n \<notin> set x \<Longrightarrow> n \<notin> set sep \<Longrightarrow> n \<notin> set (join_text sep xs)"
  by (induction sep xs rule: join_text.induct) auto

lemma lines_from_append: "10 \<notin> set a \<Longrightarrow> lines_from cur (a @ b) = lines_from (cur @ a) b"
  by (induction a arbitrary: cur) auto

lemma lines_from_join:
  "\<forall>x \<in> set (x0 # xs). 10 \<notin> set x \<Longrightarrow>
     lines_from cur (join_text [10] (x0 # xs)) = (cur @ x0) # xs"
proof (induction xs arbitrary: x0 cur)
  case Nil
  then have "lines_from cur (x0 @ []) = lines_from (cur @ x0) []"
    by (intro lines_from_append) simp
  then show ?case by simp
next
  case (Cons y ys)
  from Cons.prems have x0: "10 \<notin> set x0" by simp
  from Cons.prems have rest: "\<forall>x \<in> set (y # ys). 10 \<notin> set x" by simp
  have "lines_from cur (join_text [10] (x0 # y # ys))
      = lines_from cur (x0 @ (10 # join_text [10] (y # ys)))" by simp
  also have "\<dots> = lines_from (cur @ x0) (10 # join_text [10] (y # ys))"
    using x0 by (rule lines_from_append)
  also have "\<dots> = (cur @ x0) # lines_from [] (join_text [10] (y # ys))" by simp
  also have "lines_from [] (join_text [10] (y # ys)) = ([] @ y) # ys"
    using rest by (rule Cons.IH)
  finally show ?case by simp
qed

lemma txt_header_newline: "10 \<notin> set txt_header"
  by (simp add: txt_header_def column_label_def)

lemma str_nat_no_newline: "\<not> has_newline (str_nat n)"
  using str_nat_newline[of n] by (simp add: code_points_newline)

lemma txt_line_newline:
  assumes "\<not> has_newline (h_time e)" "\<not> has_newline (h_raw e)" "\<not> has_newline (h_word e)"
    "\<not> has_newline (h_split e)" "\<not> has_newline (h_ipa e)"
  shows "10 \<notin> set (txt_line e)"
  unfolding txt_line_def
  by (rule join_text_avoid)
     (use assms in \<open>simp_all add: code_points_newline str_nat_no_newline\<close>)

lemma no_newline_lines:
  assumes "no_newline h"
  shows "\<forall>x \<in> set (txt_header # map txt_line (sort_key h_time (records h))). 10 \<notin> set x"
proof -
  have "\<And>e. e \<in> set (records h) \<Longrightarrow> 10 \<notin> set (txt_line e)"
  proof -
    fix e assume "e \<in> set (records h)"
    then obtain k where "(k, e) \<in> set h" by (auto simp: records_def)
    with assms have "\<not> has_newline (h_time e) \<and> \<not> has_newline (h_raw e)
        \<and> \<not> has_newline (h_word e) \<and> \<not> has_newline (h_split e) \<and> \<not> has_newline (h_ipa e)"
      unfolding no_newline_def by blast
    then show "10 \<notin> set (txt_line e)" by (simp add: txt_line_newline)
  qed
  then show ?thesis by (auto simp: txt_header_newline)
qed

text \<open>
  Claim C8, as amended. When the ledger is not empty the export is produced. The first
  CSV row is the header row of the seven column names, in the order time, count, raw
  input, canonical word, syllable split, syllable count, IPA, and the CSV rows after it
  are one per key of the ledger: as many as there are keys, their canonical words are the
  keys, no word twice, each row the cells of a record of the ledger, and their timestamps
  ascend. The TXT text is the header line and one line per record, joined by newlines;
  the records are one per key, no word twice, with ascending timestamps. When no string
  field of the ledger holds a newline character, the lines of the TXT text are exactly
  these, so the text has one data line per key.
\<close>

theorem export_rows:
  assumes "ledger_ok h" and "h \<noteq> []"
  shows "export h = Some (csv_rows h, txt_data h)
     \<and> hd (csv_rows h) =
         [Label Col_time, Label Col_count, Label Col_raw, Label Col_word,
          Label Col_split, Label Col_syllables, Label Col_IPA]
     \<and> map column_label [Col_time, Col_count, Col_raw, Col_word, Col_split, Col_syllables, Col_IPA]
         = [[0x65F6, 0x95F4], [0x6B21, 0x6570], [0x539F, 0x59CB, 0x8F93, 0x5165],
            [0x6807, 0x51C6, 0x5355, 0x8BCD], [0x97F3, 0x8282, 0x5206, 0x9694],
            [0x97F3, 0x8282, 0x6570], [0x49, 0x50, 0x41]]
     \<and> length (tl (csv_rows h)) = card (fst ` set h)
     \<and> distinct (map row_word (tl (csv_rows h)))
     \<and> set (map row_word (tl (csv_rows h))) = fst ` set h
     \<and> set (tl (csv_rows h)) = record_row ` set (records h)
     \<and> sorted (map row_time (tl (csv_rows h)))
     \<and> txt_data h = join_text [10] (txt_header # map txt_line (sort_key h_time (records h)))
     \<and> length (sort_key h_time (records h)) = card (fst ` set h)
     \<and> distinct (map h_word (sort_key h_time (records h)))
     \<and> set (map h_word (sort_key h_time (records h))) = fst ` set h
     \<and> sorted (map h_time (sort_key h_time (records h)))
     \<and> (no_newline h \<longrightarrow>
          lines_from [] (txt_data h) = txt_header # map txt_line (sort_key h_time (records h))
          \<and> length (tl (lines_from [] (txt_data h))) = card (fst ` set h))"
proof -
  let ?rs = "sort_key h_time (records h)"
  have e: "export h = Some (csv_rows h, txt_data h)"
    using assms(2) by (simp add: export_def)
  have hd: "hd (csv_rows h) =
         [Label Col_time, Label Col_count, Label Col_raw, Label Col_word,
          Label Col_split, Label Col_syllables, Label Col_IPA]"
    by (simp add: csv_rows_def headers_def)
  have lab: "map column_label [Col_time, Col_count, Col_raw, Col_word, Col_split, Col_syllables, Col_IPA]
         = [[0x65F6, 0x95F4], [0x6B21, 0x6570], [0x539F, 0x59CB, 0x8F93, 0x5165],
            [0x6807, 0x51C6, 0x5355, 0x8BCD], [0x97F3, 0x8282, 0x5206, 0x9694],
            [0x97F3, 0x8282, 0x6570], [0x49, 0x50, 0x41]]"
    by (simp add: column_label_def)
  have c: "tl (csv_rows h) = map record_row ?rs"
    by (simp add: csv_rows_def)
  have s: "set (map record_row ?rs) = record_row ` set (records h)"
    by simp
  note w = data_rows_words[OF assms(1)]
  have c1: "length (tl (csv_rows h)) = card (fst ` set h)" unfolding c by (rule w(3))
  have c2: "distinct (map row_word (tl (csv_rows h)))" unfolding c by (rule w(1))
  have c3: "set (map row_word (tl (csv_rows h))) = fst ` set h" unfolding c by (rule w(2))
  have c4: "set (tl (csv_rows h)) = record_row ` set (records h)" unfolding c by (rule s)
  have c5: "sorted (map row_time (tl (csv_rows h)))" unfolding c by (rule data_rows_sorted)
  have t: "txt_data h = join_text [10] (txt_header # map txt_line ?rs)"
    by (simp add: txt_data_def txt_lines_def)
  from w(3) have len: "length ?rs = card (fst ` set h)" by simp
  from w(1) have dis: "distinct (map h_word ?rs)" by (simp add: row_word_comp)
  from w(2) have st: "set (map h_word ?rs) = fst ` set h" by (simp add: row_word_comp)
  have so: "sorted (map h_time ?rs)" by simp
  have nl: "no_newline h \<longrightarrow>
          lines_from [] (txt_data h) = txt_header # map txt_line ?rs
          \<and> length (tl (lines_from [] (txt_data h))) = card (fst ` set h)"
  proof
    assume "no_newline h"
    then have "\<forall>x \<in> set (txt_header # map txt_line ?rs). 10 \<notin> set x"
      by (rule no_newline_lines)
    then have "lines_from [] (join_text [10] (txt_header # map txt_line ?rs))
        = ([] @ txt_header) # map txt_line ?rs"
      by (rule lines_from_join)
    then have l: "lines_from [] (txt_data h) = txt_header # map txt_line ?rs"
      unfolding t by simp
    with len show "lines_from [] (txt_data h) = txt_header # map txt_line ?rs
          \<and> length (tl (lines_from [] (txt_data h))) = card (fst ` set h)"
      by simp
  qed
  show ?thesis by (intro conjI e hd lab c1 c2 c3 c4 c5 t len dis st so nl)
qed

text \<open>The witness: a ledger of two words, the later one first, without any newline.\<close>

theorem export_rows_witness:
  "ledger_ok
     [(''b'', \<lparr>h_time = ''2024-01-01 00:00:02'', h_count = 1, h_raw = ''B'', h_word = ''b'',
               h_split = ''b'', h_syllables = 1, h_ipa = []\<rparr>),
      (''a'', \<lparr>h_time = ''2024-01-01 00:00:01'', h_count = 12, h_raw = ''a!'', h_word = ''a'',
               h_split = ''a'', h_syllables = 1, h_ipa = ''/a/''\<rparr>)]
   \<and> no_newline
     [(''b'', \<lparr>h_time = ''2024-01-01 00:00:02'', h_count = 1, h_raw = ''B'', h_word = ''b'',
               h_split = ''b'', h_syllables = 1, h_ipa = []\<rparr>),
      (''a'', \<lparr>h_time = ''2024-01-01 00:00:01'', h_count = 12, h_raw = ''a!'', h_word = ''a'',
               h_split = ''a'', h_syllables = 1, h_ipa = ''/a/''\<rparr>)]
   \<and> map row_word (tl (csv_rows
     [(''b'', \<lparr>h_time = ''2024-01-01 00:00:02'', h_count = 1, h_raw = ''B'', h_word = ''b'',
               h_split = ''b'', h_syllables = 1, h_ipa = []\<rparr>),
      (''a'', \<lparr>h_time = ''2024-01-01 00:00:01'', h_count = 12, h_raw = ''a!'', h_word = ''a'',
               h_split = ''a'', h_syllables = 1, h_ipa = ''/a/''\<rparr>)])) = [''a'', ''b'']
   \<and> sorted (map row_time (tl (csv_rows
     [(''b'', \<lparr>h_time = ''2024-01-01 00:00:02'', h_count = 1, h_raw = ''B'', h_word = ''b'',
               h_split = ''b'', h_syllables = 1, h_ipa = []\<rparr>),
      (''a'', \<lparr>h_time = ''2024-01-01 00:00:01'', h_count = 12, h_raw = ''a!'', h_word = ''a'',
               h_split = ''a'', h_syllables = 1, h_ipa = ''/a/''\<rparr>)])))
   \<and> tl (lines_from [] (txt_data
     [(''b'', \<lparr>h_time = ''2024-01-01 00:00:02'', h_count = 1, h_raw = ''B'', h_word = ''b'',
               h_split = ''b'', h_syllables = 1, h_ipa = []\<rparr>),
      (''a'', \<lparr>h_time = ''2024-01-01 00:00:01'', h_count = 12, h_raw = ''a!'', h_word = ''a'',
               h_split = ''a'', h_syllables = 1, h_ipa = ''/a/''\<rparr>)]))
       = [code_points (''2024-01-01 00:00:01'' @ [CHR 0x09] @ ''12'' @ [CHR 0x09] @ ''a!''
            @ [CHR 0x09] @ ''a'' @ [CHR 0x09] @ ''a'' @ [CHR 0x09] @ ''1'' @ [CHR 0x09] @ ''/a/''),
          code_points (''2024-01-01 00:00:02'' @ [CHR 0x09] @ ''1'' @ [CHR 0x09] @ ''B''
            @ [CHR 0x09] @ ''b'' @ [CHR 0x09] @ ''b'' @ [CHR 0x09] @ ''1'' @ [CHR 0x09])]
   \<and> length (tl (lines_from [] (txt_data
     [(''b'', \<lparr>h_time = ''2024-01-01 00:00:02'', h_count = 1, h_raw = ''B'', h_word = ''b'',
               h_split = ''b'', h_syllables = 1, h_ipa = []\<rparr>),
      (''a'', \<lparr>h_time = ''2024-01-01 00:00:01'', h_count = 12, h_raw = ''a!'', h_word = ''a'',
               h_split = ''a'', h_syllables = 1, h_ipa = ''/a/''\<rparr>)]))) = 2"
proof -
  let ?h = "[(''b'', \<lparr>h_time = ''2024-01-01 00:00:02'', h_count = 1, h_raw = ''B'', h_word = ''b'',
               h_split = ''b'', h_syllables = 1, h_ipa = []\<rparr>),
      (''a'', \<lparr>h_time = ''2024-01-01 00:00:01'', h_count = 12, h_raw = ''a!'', h_word = ''a'',
               h_split = ''a'', h_syllables = 1, h_ipa = ''/a/''\<rparr>)]"
  have a1: "ledger_ok ?h" by (simp add: ledger_ok_def key_inv_def)
  have a2: "?h \<noteq> []" by simp
  have a3: "no_newline ?h" by (simp add: no_newline_def has_newline_def)
  have a4: "map row_word (tl (csv_rows ?h)) = [''a'', ''b'']" by code_simp
  have srt: "sort_key h_time (records ?h) =
      [\<lparr>h_time = ''2024-01-01 00:00:01'', h_count = 12, h_raw = ''a!'', h_word = ''a'',
               h_split = ''a'', h_syllables = 1, h_ipa = ''/a/''\<rparr>,
       \<lparr>h_time = ''2024-01-01 00:00:02'', h_count = 1, h_raw = ''B'', h_word = ''b'',
               h_split = ''b'', h_syllables = 1, h_ipa = []\<rparr>]"
    by code_simp
  have a5: "tl (lines_from [] (txt_data ?h))
       = [code_points (''2024-01-01 00:00:01'' @ [CHR 0x09] @ ''12'' @ [CHR 0x09] @ ''a!''
            @ [CHR 0x09] @ ''a'' @ [CHR 0x09] @ ''a'' @ [CHR 0x09] @ ''1'' @ [CHR 0x09] @ ''/a/''),
          code_points (''2024-01-01 00:00:02'' @ [CHR 0x09] @ ''1'' @ [CHR 0x09] @ ''B''
            @ [CHR 0x09] @ ''b'' @ [CHR 0x09] @ ''b'' @ [CHR 0x09] @ ''1'' @ [CHR 0x09])]"
    unfolding txt_data_def txt_lines_def srt
    by (simp add: txt_line_def txt_header_def column_label_def code_points_def str_nat.simps)
  have card: "card (fst ` set ?h) = 2" by simp
  note u = export_rows [OF a1 a2]
  from u have b1: "sorted (map row_time (tl (csv_rows ?h)))" by blast
  from u a3 have "length (tl (lines_from [] (txt_data ?h))) = card (fst ` set ?h)" by blast
  with card have b2: "length (tl (lines_from [] (txt_data ?h))) = 2" by simp
  show ?thesis by (intro conjI a1 a3 a4 b1 a5 b2)
qed

text \<open>
  The claim as stated fails for the TXT export. After a run on \<open>Cat\<close> with a reply whose
  transcription holds a line break the ledger has one word, the CSV has one data row, and
  the TXT text has two lines after the header.
\<close>

theorem txt_newline_counterexample:
  "reachable (sample_env (Response 200 []) (Some (JArr [newline_entry])))
     (snd (run_script (sample_env (Response 200 []) (Some (JArr [newline_entry]))) ''Cat''
            initial_state))
   \<and> map fst (history (snd (run_script (sample_env (Response 200 []) (Some (JArr [newline_entry])))
                               ''Cat'' initial_state))) = [''cat'']
   \<and> length (tl (csv_rows (history (snd (run_script
        (sample_env (Response 200 []) (Some (JArr [newline_entry]))) ''Cat'' initial_state))))) = 1
   \<and> length (tl (lines_from [] (txt_data (history (snd (run_script
        (sample_env (Response 200 []) (Some (JArr [newline_entry]))) ''Cat'' initial_state)))))) = 2"
proof -
  let ?ev = "sample_env (Response 200 []) (Some (JArr [newline_entry]))"
  let ?r = "run_script ?ev ''Cat'' initial_state"
  have a1: "reachable ?ev (snd ?r)"
    by (rule reachable.rerun[OF reachable.start, of _ "''Cat''" "fst ?r"]) simp
  have a2: "map fst (history (snd ?r)) = [''cat'']" by code_simp
  have a3: "length (tl (csv_rows (history (snd ?r)))) = 1" by code_simp
  have h: "history (snd ?r)
      = [(''cat'', \<lparr>h_time = ''2024-01-01 00:00:00'', h_count = 1, h_raw = ''Cat'',
                  h_word = ''cat'', h_split = ''cat'', h_syllables = 1,
                  h_ipa = ''/a'' @ [CHR 0x0A] @ ''b/''\<rparr>)]"
    by code_simp
  have a4: "length (tl (lines_from [] (txt_data (history (snd ?r))))) = 2"
    unfolding h
    by (simp add: txt_data_def txt_lines_def txt_line_def txt_header_def column_label_def
          code_points_def records_def str_nat.simps)
  show ?thesis by (intro conjI a1 a2 a3 a4)
qed

section \<open>Dictionary resolver: synonyms\<close>

lemma remdups_append_mem: "x \<in> set b \<Longrightarrow> remdups (a @ x # b) = remdups (a @ b)"
  by (induction a) auto

lemma dedup_first_distinct: "distinct xs \<Longrightarrow> dedup_first xs = xs"
  by (simp add: dedup_first_def distinct_remdups_id)

lemma dedup_first_seen:
  "x \<in> set uniq \<Longrightarrow> dedup_first (uniq @ x # rest) = dedup_first (uniq @ rest)"
  by (simp add: dedup_first_def remdups_append_mem)

lemma synonyms_loop_dedup:
  "distinct uniq \<Longrightarrow>
     synonyms_loop syns uniq = dedup_first (uniq @ List.map_filter str_field syns)"
proof (induction syns arbitrary: uniq)
  case Nil
  then show ?case by (simp add: List.map_filter_simps dedup_first_distinct)
next
  case (Cons s syns)
  show ?case
  proof (cases "str_field s")
    case None
    then have "synonyms_loop (s # syns) uniq = synonyms_loop syns uniq"
      by (cases s) (auto simp: str_field_def Let_def split: if_splits)
    with Cons None show ?thesis by (simp add: List.map_filter_simps)
  next
    case (Some t)
    then obtain u where s: "s = JStr u" and t: "t = strip u" "strip u \<noteq> []"
      by (cases s) (auto simp: str_field_def split: if_splits)
    show ?thesis
    proof (cases "t \<in> set uniq")
      case True
      with s t have "synonyms_loop (s # syns) uniq = synonyms_loop syns uniq"
        by (simp add: Let_def)
      with Cons Some True show ?thesis
        by (simp add: List.map_filter_simps dedup_first_seen)
    next
      case False
      with s t have "synonyms_loop (s # syns) uniq = synonyms_loop syns (uniq @ [t])"
        by (simp add: Let_def)
      moreover from False Cons.prems have "distinct (uniq @ [t])" by simp
      ultimately show ?thesis using Cons.IH[of "uniq @ [t]"] Some
        by (simp add: List.map_filter_simps)
    qed
  qed
qed

lemma dedup_first_props: "distinct (dedup_first xs)" "set (dedup_first xs) = set xs"
  by (simp_all add: dedup_first_def)

lemma subseq_insert_middle: "subseq a (u @ c) \<Longrightarrow> subseq a (u @ t # c)"
proof -
  assume a: "subseq a (u @ c)"
  have "subseq (u @ c) (u @ t # c)" by (simp add: subseq_append' list_emb_Cons)
  with a show ?thesis by (rule subseq_order.trans)
qed

lemma synonyms_loop_subseq:
  "subseq (synonyms_loop syns uniq) (uniq @ List.map_filter str_field syns)"
proof (induction syns arbitrary: uniq)
  case Nil
  show ?case by (simp add: List.map_filter_simps)
next
  case (Cons s syns)
  show ?case
  proof (cases "str_field s")
    case None
    then have "synonyms_loop (s # syns) uniq = synonyms_loop syns uniq"
      by (cases s) (auto simp: str_field_def Let_def split: if_splits)
    with Cons[of uniq] None show ?thesis by (simp add: List.map_filter_simps)
  next
    case (Some t)
    then obtain u where s: "s = JStr u" and t: "t = strip u" "strip u \<noteq> []"
      by (cases s) (auto simp: str_field_def split: if_splits)
    show ?thesis
    proof (cases "t \<in> set uniq")
      case True
      with s t have "synonyms_loop (s # syns) uniq = synonyms_loop syns uniq"
        by (simp add: Let_def)
      with Cons[of uniq] Some show ?thesis
        by (simp add: List.map_filter_simps subseq_insert_middle)
    next
      case False
      with s t have "synonyms_loop (s # syns) uniq = synonyms_loop syns (uniq @ [t])"
        by (simp add: Let_def)
      with Cons[of "uniq @ [t]"] Some show ?thesis
        by (simp add: List.map_filter_simps)
    qed
  qed
qed

lemma synonyms_loop_distinct: "distinct (synonyms_loop syns [])"
  by (simp add: synonyms_loop_dedup dedup_first_props)

lemma extract_ipa_frame:
  "extract_ipa entry res = Inr r \<Longrightarrow>
     synonyms r = synonyms res \<and> pos r = pos res \<and> defn r = defn res \<and> example r = example res"
  by (auto simp: extract_ipa_def split: sum.splits option.splits if_splits json.splits)

lemma extract_definition_synonyms:
  "get d0 ''synonyms'' = Inr (JArr syns) \<Longrightarrow> extract_definition d0 res = Inr r \<Longrightarrow>
     synonyms r = take 5 (synonyms_loop syns [])"
  by (cases d0) (auto simp: extract_definition_def py_or_def Let_def split: sum.splits if_splits)

lemma extract_definition_bound:
  "extract_definition d0 res = Inr r \<Longrightarrow> distinct (synonyms res) \<and> length (synonyms res) \<le> 5
     \<Longrightarrow> distinct (synonyms r) \<and> length (synonyms r) \<le> 5"
  by (cases d0)
     (auto simp: extract_definition_def py_or_def Let_def synonyms_loop_distinct
           split: sum.splits if_splits json.splits)

lemma extract_definition_ipa: "extract_definition d0 res = Inr r \<Longrightarrow> ipa r = ipa res"
  by (cases d0) (auto simp: extract_definition_def py_or_def Let_def split: sum.splits if_splits json.splits)

lemma extract_meaning_synonyms:
  assumes "get m ''definitions'' = Inr (JArr (d0 # ds))"
    and "get d0 ''synonyms'' = Inr (JArr syns)"
    and "extract_meaning m res = Inr r"
  shows "synonyms r = take 5 (synonyms_loop syns [])"
proof -
  from assms(1) obtain kvs where m: "m = JObj kvs" by (cases m) auto
  from assms(1,3) m obtain res' where "extract_definition d0 res' = Inr r"
    by (simp add: extract_meaning_def py_or_def Let_def)
  with assms(2) show ?thesis by (rule extract_definition_synonyms)
qed

lemma extract_meanings_synonyms:
  assumes "get entry ''meanings'' = Inr (JArr (m # ms))"
    and "get m ''definitions'' = Inr (JArr (d0 # ds))"
    and "get d0 ''synonyms'' = Inr (JArr syns)"
    and "extract_meanings entry res = Inr r"
  shows "synonyms r = take 5 (synonyms_loop syns [])"
proof -
  from assms(1,4) have "extract_meaning m res = Inr r"
    by (simp add: extract_meanings_def py_or_def)
  with assms(2,3) show ?thesis by (rule extract_meaning_synonyms)
qed

lemma extract_meaning_bound:
  assumes "extract_meaning m res = Inr r"
    and "distinct (synonyms res) \<and> length (synonyms res) \<le> 5"
  shows "distinct (synonyms r) \<and> length (synonyms r) \<le> 5"
proof (cases m)
  case (JObj kvs)
  let ?res = "res\<lparr>pos := set_opt (str_field (case map_of kvs ''partOfSpeech'' of
                  None \<Rightarrow> JNull | Some v \<Rightarrow> v)) (pos res)\<rparr>"
  let ?ds = "first_item (py_or (case map_of kvs ''definitions'' of None \<Rightarrow> JNull | Some v \<Rightarrow> v)
                 (JArr []))"
  show ?thesis
  proof (cases ?ds)
    case None
    with assms(1) JObj have "r = ?res" by (simp add: extract_meaning_def Let_def)
    with assms(2) show ?thesis by simp
  next
    case (Some d0)
    with assms(1) JObj have "extract_definition d0 ?res = Inr r"
      by (simp add: extract_meaning_def Let_def)
    from extract_definition_bound[OF this] assms(2) show ?thesis by simp
  qed
qed (use assms(1) in \<open>simp_all add: extract_meaning_def\<close>)

lemma extract_meaning_ipa:
  assumes "extract_meaning m res = Inr r"
  shows "ipa r = ipa res"
proof (cases m)
  case (JObj kvs)
  let ?res = "res\<lparr>pos := set_opt (str_field (case map_of kvs ''partOfSpeech'' of
                  None \<Rightarrow> JNull | Some v \<Rightarrow> v)) (pos res)\<rparr>"
  let ?ds = "first_item (py_or (case map_of kvs ''definitions'' of None \<Rightarrow> JNull | Some v \<Rightarrow> v)
                 (JArr []))"
  show ?thesis
  proof (cases ?ds)
    case None
    with assms(1) JObj have "r = ?res" by (simp add: extract_meaning_def Let_def)
    then show ?thesis by simp
  next
    case (Some d0)
    with assms(1) JObj have "extract_definition d0 ?res = Inr r"
      by (simp add: extract_meaning_def Let_def)
    from extract_definition_ipa[OF this] show ?thesis by simp
  qed
qed (use assms(1) in \<open>simp_all add: extract_meaning_def\<close>)

lemma extract_meanings_cases:
  assumes "extract_meanings entry res = Inr r"
  shows "r = res \<or> (\<exists>m. extract_meaning m res = Inr r)"
proof (cases entry)
  case (JObj kvs)
  with assms show ?thesis
    by (cases "first_item (py_or (case map_of kvs ''meanings'' of None \<Rightarrow> JNull | Some v \<Rightarrow> v)
                 (JArr []))")
       (auto simp: extract_meanings_def)
qed (use assms in \<open>simp_all add: extract_meanings_def\<close>)

lemma extract_meanings_bound:
  assumes "extract_meanings entry res = Inr r"
    and "distinct (synonyms res) \<and> length (synonyms res) \<le> 5"
  shows "distinct (synonyms r) \<and> length (synonyms r) \<le> 5"
  using extract_meanings_cases[OF assms(1)] assms(2) extract_meaning_bound by blast

lemma extract_meanings_ipa:
  assumes "extract_meanings entry res = Inr r"
  shows "ipa r = ipa res"
  using extract_meanings_cases[OF assms] extract_meaning_ipa by blast

lemma fetch_ok:
  "urlopen ev reqs word = Response 200 body \<Longrightarrow> json_loads ev body = Some (JArr (entry # rest))
     \<Longrightarrow> fetch_word_info_from_api ev reqs word =
         (case extract_ipa entry base_result of
            Inl e \<Rightarrow> Inl e
          | Inr res \<Rightarrow> extract_meanings entry res)"
  by (simp add: fetch_word_info_from_api_def)

lemma fetch_cases:
  assumes "fetch_word_info_from_api ev reqs word = Inr r"
  shows "r = base_result \<or>
     (\<exists>entry res. extract_ipa entry base_result = Inr res \<and> extract_meanings entry res = Inr r)"
  using assms
  by (auto simp: fetch_word_info_from_api_def
           split: reply.splits if_splits option.splits sum.splits)

text \<open>
  Claim C4. In every record the fetch returns the synonyms are pairwise different and at
  most five. When the first definition of the first meaning group has a list of synonyms,
  the synonyms of the record are the first five of that list after trimming, without the
  entries that are not strings or are blank, and without repetitions, every string at its
  first occurrence; they appear in the order of the source list.
\<close>

theorem synonyms_deduplicated_first_five:
  "(fetch_word_info_from_api ev reqs word = Inr r \<longrightarrow>
      distinct (synonyms r) \<and> length (synonyms r) \<le> 5)
   \<and> (fetch_word_info_from_api ev reqs word = Inr r
       \<and> urlopen ev reqs word = Response 200 body
       \<and> json_loads ev body = Some (JArr (entry # rest))
       \<and> get entry ''meanings'' = Inr (JArr (m # ms))
       \<and> get m ''definitions'' = Inr (JArr (d0 # ds))
       \<and> get d0 ''synonyms'' = Inr (JArr syns)
      \<longrightarrow> synonyms r = take 5 (dedup_first (List.map_filter str_field syns))
        \<and> subseq (synonyms r) (List.map_filter str_field syns))"
proof -
  have c1: "fetch_word_info_from_api ev reqs word = Inr r \<longrightarrow>
      distinct (synonyms r) \<and> length (synonyms r) \<le> 5"
  proof
    assume "fetch_word_info_from_api ev reqs word = Inr r"
    from fetch_cases[OF this] consider "r = base_result"
      | e res where "extract_ipa e base_result = Inr res" "extract_meanings e res = Inr r"
      by blast
    then show "distinct (synonyms r) \<and> length (synonyms r) \<le> 5"
    proof cases
      case 1
      then show ?thesis by (simp add: base_result_def)
    next
      case 2
      from extract_ipa_frame[OF 2(1)] have "synonyms res = []" by (simp add: base_result_def)
      with extract_meanings_bound[OF 2(2)] show ?thesis by simp
    qed
  qed
  have c2: "fetch_word_info_from_api ev reqs word = Inr r
       \<and> urlopen ev reqs word = Response 200 body
       \<and> json_loads ev body = Some (JArr (entry # rest))
       \<and> get entry ''meanings'' = Inr (JArr (m # ms))
       \<and> get m ''definitions'' = Inr (JArr (d0 # ds))
       \<and> get d0 ''synonyms'' = Inr (JArr syns)
      \<longrightarrow> synonyms r = take 5 (dedup_first (List.map_filter str_field syns))
        \<and> subseq (synonyms r) (List.map_filter str_field syns)"
  proof
    assume a: "fetch_word_info_from_api ev reqs word = Inr r
       \<and> urlopen ev reqs word = Response 200 body
       \<and> json_loads ev body = Some (JArr (entry # rest))
       \<and> get entry ''meanings'' = Inr (JArr (m # ms))
       \<and> get m ''definitions'' = Inr (JArr (d0 # ds))
       \<and> get d0 ''synonyms'' = Inr (JArr syns)"
    then have "(case extract_ipa entry base_result of
            Inl e \<Rightarrow> Inl e
          | Inr res \<Rightarrow> extract_meanings entry res) = Inr r"
      using fetch_ok by metis
    then obtain res where "extract_meanings entry res = Inr r"
      by (auto split: sum.splits)
    with a have s: "synonyms r = take 5 (synonyms_loop syns [])"
      using extract_meanings_synonyms by blast
    have d: "synonyms_loop syns [] = dedup_first (List.map_filter str_field syns)"
      by (simp add: synonyms_loop_dedup)
    have "subseq (synonyms_loop syns []) (List.map_filter str_field syns)"
      using synonyms_loop_subseq[of syns "[]"] by simp
    moreover have "subseq (take 5 (synonyms_loop syns [])) (synonyms_loop syns [])"
      by (metis append_take_drop_id prefix_imp_subseq prefixI)
    ultimately have "subseq (take 5 (synonyms_loop syns [])) (List.map_filter str_field syns)"
      using subseq_order.trans by blast
    with s d show "synonyms r = take 5 (dedup_first (List.map_filter str_field syns))
        \<and> subseq (synonyms r) (List.map_filter str_field syns)" by simp
  qed
  show ?thesis by (intro conjI c1 c2)
qed

text \<open>The witness: a reply whose first definition lists nine synonyms.\<close>

theorem synonyms_deduplicated_first_five_witness:
  "fetch_word_info_from_api (sample_env (Response 200 []) (Some (JArr [sample_entry]))) [] ''quick''
     = Inr \<lparr>ipa = Some ''/kwik/'', pos = Some ''adjective'', defn = Some ''moving quickly'',
            example = None, synonyms = [''fast'', ''quick'', ''rapid'', ''swift'', ''speedy'']\<rparr>
   \<and> urlopen (sample_env (Response 200 []) (Some (JArr [sample_entry]))) [] ''quick''
       = Response 200 []
   \<and> json_loads (sample_env (Response 200 []) (Some (JArr [sample_entry]))) []
       = Some (JArr [sample_entry])
   \<and> get sample_entry ''meanings'' = Inr (JArr [sample_meaning])
   \<and> get sample_meaning ''definitions'' = Inr (JArr [sample_definition])
   \<and> get sample_definition ''synonyms'' = Inr (JArr sample_synonyms)
   \<and> List.map_filter str_field sample_synonyms
       = [''fast'', ''fast'', ''quick'', ''rapid'', ''swift'', ''speedy'', ''hasty'']
   \<and> take 5 (dedup_first (List.map_filter str_field sample_synonyms))
       = [''fast'', ''quick'', ''rapid'', ''swift'', ''speedy'']
   \<and> distinct [''fast'', ''quick'', ''rapid'', ''swift'', ''speedy'']
   \<and> subseq [''fast'', ''quick'', ''rapid'', ''swift'', ''speedy'']
        (List.map_filter str_field sample_synonyms)"
proof -
  let ?ev = "sample_env (Response 200 []) (Some (JArr [sample_entry]))"
  let ?r = "\<lparr>ipa = Some ''/kwik/'', pos = Some ''adjective'', defn = Some ''moving quickly'',
            example = None, synonyms = [''fast'', ''quick'', ''rapid'', ''swift'', ''speedy'']\<rparr>"
  have a1: "fetch_word_info_from_api ?ev [] ''quick'' = Inr ?r" by code_simp
  have a2: "urlopen ?ev [] ''quick'' = Response 200 []" by (simp add: sample_env_def)
  have a3: "json_loads ?ev [] = Some (JArr [sample_entry])" by (simp add: sample_env_def)
  have a4: "get sample_entry ''meanings'' = Inr (JArr [sample_meaning])"
    by (simp add: sample_entry_def)
  have a5: "get sample_meaning ''definitions'' = Inr (JArr [sample_definition])"
    by (simp add: sample_meaning_def)
  have a6: "get sample_definition ''synonyms'' = Inr (JArr sample_synonyms)"
    by (simp add: sample_definition_def)
  have a7: "List.map_filter str_field sample_synonyms
       = [''fast'', ''fast'', ''quick'', ''rapid'', ''swift'', ''speedy'', ''hasty'']"
    by code_simp
  note u = synonyms_deduplicated_first_five
     [where ev = ?ev and reqs = "[]" and word = "''quick''" and r = ?r and body = "[]"
        and entry = sample_entry and rest = "[]" and m = sample_meaning and ms = "[]"
        and ?d0.0 = sample_definition and ds = "[]" and syns = sample_synonyms]
  from u a1 have b1: "distinct (synonyms ?r)" by blast
  from u a1 a2 a3 a4 a5 a6
  have b2: "synonyms ?r = take 5 (dedup_first (List.map_filter str_field sample_synonyms))
      \<and> subseq (synonyms ?r) (List.map_filter str_field sample_synonyms)"
    by blast
  have sel: "synonyms ?r = [''fast'', ''quick'', ''rapid'', ''swift'', ''speedy'']" by simp
  from b1 have c1: "distinct [''fast'', ''quick'', ''rapid'', ''swift'', ''speedy'']"
    unfolding sel .
  from b2 have "[''fast'', ''quick'', ''rapid'', ''swift'', ''speedy'']
       = take 5 (dedup_first (List.map_filter str_field sample_synonyms))"
    unfolding sel by (rule conjunct1)
  then have c2: "take 5 (dedup_first (List.map_filter str_field sample_synonyms))
       = [''fast'', ''quick'', ''rapid'', ''swift'', ''speedy'']" by (rule sym)
  from b2 have c3: "subseq [''fast'', ''quick'', ''rapid'', ''swift'', ''speedy'']
        (List.map_filter str_field sample_synonyms)"
    unfolding sel by (rule conjunct2)
  show ?thesis by (intro conjI a1 a2 a3 a4 a5 a6 a7 c2 c1 c3)
qed

section \<open>Dictionary resolver: IPA\<close>

lemma strip_prefix_hd:
  "rev (dropWhile P (rev a)) \<noteq> [] \<Longrightarrow> hd (rev (dropWhile P (rev a))) = hd a"
proof -
  assume n: "rev (dropWhile P (rev a)) \<noteq> []"
  have "rev a = takeWhile P (rev a) @ dropWhile P (rev a)" by simp
  then have "a = rev (dropWhile P (rev a)) @ rev (takeWhile P (rev a))"
    by (metis rev_append rev_rev_ident)
  with n show ?thesis by (metis hd_append2)
qed

lemma strip_idem: "strip (strip s) = strip s"
proof -
  let ?a = "dropWhile is_space s"
  let ?b = "rev (dropWhile is_space (rev ?a))"
  have b: "strip s = ?b" by (simp add: strip_def)
  show ?thesis
  proof (cases "?b = []")
    case True
    with b have e: "strip s = []" by simp
    have "strip [] = []" by (simp add: strip_def)
    with e show ?thesis by simp
  next
    case False
    then have "hd ?b = hd ?a" by (rule strip_prefix_hd)
    moreover have "?a \<noteq> []"
    proof
      assume e: "?a = []"
      have "?b = []" unfolding e by simp
      with False show False by (rule notE)
    qed
    then have "\<not> is_space (hd ?a)" by (rule hd_dropWhile)
    ultimately have 1: "dropWhile is_space ?b = ?b"
      using False by (simp add: dropWhile_eq_self_iff)
    from False have "dropWhile is_space (rev ?a) \<noteq> []" by simp
    then have "\<not> is_space (hd (dropWhile is_space (rev ?a)))" by (rule hd_dropWhile)
    then have 2: "dropWhile is_space (rev ?b) = rev ?b"
      using False by (simp add: dropWhile_eq_self_iff)
    have "strip ?b = ?b" unfolding strip_def[of ?b] 1 2 by simp
    with b show ?thesis by simp
  qed
qed

lemma text_of_str_field: "get p ''text'' = Inr t \<Longrightarrow> text_of p = str_field t"
  by (cases t) (auto simp: text_of_def str_field_def)

lemma text_of_raise: "get p ''text'' = Inl e \<Longrightarrow> text_of p = None"
  by (simp add: text_of_def)

lemma first_text_Cons:
  "first_text (p # ps) = (case text_of p of Some s \<Rightarrow> Some s | None \<Rightarrow> first_text ps)"
  by (auto simp: first_text_def split: option.splits)

lemma phonetics_loop_first:
  "phonetics_loop ps ipa0 = Inr v \<Longrightarrow>
     v = (case first_text ps of Some s \<Rightarrow> JStr s | None \<Rightarrow> ipa0)"
proof (induction ps)
  case Nil
  then show ?case by (simp add: first_text_def)
next
  case (Cons p ps)
  show ?case
  proof (cases "get p ''text''")
    case (Inl e)
    with Cons.prems show ?thesis by simp
  next
    case (Inr t)
    note t = text_of_str_field[OF Inr]
    show ?thesis
    proof (cases "str_field t")
      case None
      with Cons Inr t show ?thesis by (simp add: first_text_Cons)
    next
      case (Some s)
      with Cons.prems Inr t show ?thesis by (simp add: first_text_Cons)
    qed
  qed
qed

lemma first_text_stripped: "first_text ps = Some t \<Longrightarrow> str_field (JStr t) = Some t"
proof (induction ps)
  case Nil
  then show ?case by (simp add: first_text_def)
next
  case (Cons p ps)
  show ?case
  proof (cases "text_of p")
    case None
    with Cons show ?thesis by (simp add: first_text_Cons)
  next
    case (Some s)
    with Cons.prems have "s = t" by (simp add: first_text_Cons)
    with Some obtain u where "t = strip u" "strip u \<noteq> []"
      by (auto simp: text_of_def split: sum.splits json.splits if_splits)
    then show ?thesis by (simp add: str_field_def strip_idem)
  qed
qed

lemma falsy_str_field: "\<not> truthy p \<Longrightarrow> str_field p = None"
  by (cases p) (auto simp: str_field_def strip_def)

lemma extract_ipa_direct:
  "get entry ''phonetic'' = Inr (JStr s) \<Longrightarrow> s \<noteq> [] \<Longrightarrow>
     extract_ipa entry res =
       Inr (if strip s = [] then res else res\<lparr>ipa := Some (wrap_ipa (strip s))\<rparr>)"
  by (simp add: extract_ipa_def str_field_def)

lemma extract_ipa_list:
  assumes "get entry ''phonetic'' = Inr p" and "\<not> truthy p"
    and "get entry ''phonetics'' = Inr (JArr ps)"
    and "extract_ipa entry res = Inr r"
  shows "ipa r = (case first_text ps of Some t \<Rightarrow> Some (wrap_ipa t) | None \<Rightarrow> ipa res)"
proof -
  have py: "py_or (JArr ps) (JArr []) = JArr ps" by (simp add: py_or_def)
  from assms py obtain v where
    l: "phonetics_loop ps p = Inr v"
    and r: "r = (case str_field v of Some s \<Rightarrow> res\<lparr>ipa := Some (wrap_ipa s)\<rparr> | None \<Rightarrow> res)"
    by (auto simp: extract_ipa_def split: sum.splits option.splits)
  note v = phonetics_loop_first[OF l]
  show ?thesis
  proof (cases "first_text ps")
    case None
    with v assms(2) have "str_field v = None" by (simp add: falsy_str_field)
    with r None show ?thesis by simp
  next
    case (Some t)
    with v first_text_stripped[OF Some] have "str_field v = Some t" by simp
    with r Some show ?thesis by simp
  qed
qed

lemma wrap_ipa_hd:
  "wrap_ipa t = (if t \<noteq> [] \<and> (hd t = CHR ''/'' \<or> hd t = CHR ''['') then t else ''/'' @ t @ ''/'')"
  by (cases t) (auto simp: wrap_ipa_def startswith_def)

lemma fetch_ipa:
  assumes "fetch_word_info_from_api ev reqs word = Inr r"
    and "urlopen ev reqs word = Response 200 body"
    and "json_loads ev body = Some (JArr (entry # rest))"
  shows "\<exists>res. extract_ipa entry base_result = Inr res \<and> ipa r = ipa res"
proof -
  from assms have "(case extract_ipa entry base_result of
            Inl e \<Rightarrow> Inl e
          | Inr res \<Rightarrow> extract_meanings entry res) = Inr r"
    by (simp add: fetch_ok)
  then obtain res where "extract_ipa entry base_result = Inr res"
    and "extract_meanings entry res = Inr r"
    by (auto split: sum.splits)
  then show ?thesis using extract_meanings_ipa by blast
qed

text \<open>
  Claim C5, as amended. For a reply with status 200 whose body is a non-empty array, and
  a fetch that returns: when the direct \<open>phonetic\<close> field of the first entry is a non-empty
  string, the IPA comes from it and the \<open>phonetics\<close> list is not used; when the field is
  absent or empty (falsy) and \<open>phonetics\<close> is a list, the IPA comes from the first element
  whose \<open>text\<close> is a string that is not empty after trimming. The string is trimmed; when
  nothing is left of it there is no IPA; otherwise it is stored as it is when it starts
  with a slash or an opening bracket, and between two slashes when it does not.
\<close>

theorem ipa_extraction_trimmed:
  "(fetch_word_info_from_api ev reqs word = Inr r
      \<and> urlopen ev reqs word = Response 200 body
      \<and> json_loads ev body = Some (JArr (entry # rest))
      \<and> get entry ''phonetic'' = Inr (JStr s) \<and> s \<noteq> []
     \<longrightarrow> ipa r = (if strip s = [] then None else Some (wrap_ipa (strip s))))
   \<and> (fetch_word_info_from_api ev reqs word = Inr r
      \<and> urlopen ev reqs word = Response 200 body
      \<and> json_loads ev body = Some (JArr (entry # rest))
      \<and> get entry ''phonetic'' = Inr p \<and> \<not> truthy p
      \<and> get entry ''phonetics'' = Inr (JArr ps)
     \<longrightarrow> ipa r = map_option wrap_ipa (first_text ps))
   \<and> wrap_ipa t =
       (if t \<noteq> [] \<and> (hd t = CHR ''/'' \<or> hd t = CHR ''['') then t else ''/'' @ t @ ''/'')"
proof -
  have c1: "fetch_word_info_from_api ev reqs word = Inr r
      \<and> urlopen ev reqs word = Response 200 body
      \<and> json_loads ev body = Some (JArr (entry # rest))
      \<and> get entry ''phonetic'' = Inr (JStr s) \<and> s \<noteq> []
     \<longrightarrow> ipa r = (if strip s = [] then None else Some (wrap_ipa (strip s)))"
  proof
    assume a: "fetch_word_info_from_api ev reqs word = Inr r
      \<and> urlopen ev reqs word = Response 200 body
      \<and> json_loads ev body = Some (JArr (entry # rest))
      \<and> get entry ''phonetic'' = Inr (JStr s) \<and> s \<noteq> []"
    then obtain res where e: "extract_ipa entry base_result = Inr res" and i: "ipa r = ipa res"
      using fetch_ipa by blast
    from a have "extract_ipa entry base_result =
       Inr (if strip s = [] then base_result
            else base_result\<lparr>ipa := Some (wrap_ipa (strip s))\<rparr>)"
      by (simp add: extract_ipa_direct)
    with e i show "ipa r = (if strip s = [] then None else Some (wrap_ipa (strip s)))"
      by (auto simp: base_result_def)
  qed
  have c2: "fetch_word_info_from_api ev reqs word = Inr r
      \<and> urlopen ev reqs word = Response 200 body
      \<and> json_loads ev body = Some (JArr (entry # rest))
      \<and> get entry ''phonetic'' = Inr p \<and> \<not> truthy p
      \<and> get entry ''phonetics'' = Inr (JArr ps)
     \<longrightarrow> ipa r = map_option wrap_ipa (first_text ps)"
  proof
    assume a: "fetch_word_info_from_api ev reqs word = Inr r
      \<and> urlopen ev reqs word = Response 200 body
      \<and> json_loads ev body = Some (JArr (entry # rest))
      \<and> get entry ''phonetic'' = Inr p \<and> \<not> truthy p
      \<and> get entry ''phonetics'' = Inr (JArr ps)"
    then obtain res where e: "extract_ipa entry base_result = Inr res" and i: "ipa r = ipa res"
      using fetch_ipa by blast
    from a e have "ipa res =
        (case first_text ps of Some t \<Rightarrow> Some (wrap_ipa t) | None \<Rightarrow> ipa base_result)"
      using extract_ipa_list by blast
    with i show "ipa r = map_option wrap_ipa (first_text ps)"
      by (simp add: base_result_def split: option.splits)
  qed
  show ?thesis by (intro conjI c1 c2 wrap_ipa_hd)
qed

text \<open>
  The witness: an entry with a padded direct field, and an entry without the direct field
  whose first text is blank.
\<close>

theorem ipa_extraction_trimmed_witness:
  "fetch_word_info_from_api (sample_env (Response 200 []) (Some (JArr [padded_entry]))) [] ''a''
     = Inr (base_result\<lparr>ipa := Some ''/a/''\<rparr>)
   \<and> urlopen (sample_env (Response 200 []) (Some (JArr [padded_entry]))) [] ''a'' = Response 200 []
   \<and> json_loads (sample_env (Response 200 []) (Some (JArr [padded_entry]))) []
       = Some (JArr [padded_entry])
   \<and> get padded_entry ''phonetic'' = Inr (JStr '' /a/ '')
   \<and> '' /a/ '' \<noteq> []
   \<and> strip '' /a/ '' = ''/a/''
   \<and> wrap_ipa ''/a/'' = ''/a/''
   \<and> fetch_word_info_from_api (sample_env (Response 200 []) (Some (JArr [sample_entry]))) [] ''quick''
     = Inr \<lparr>ipa = Some ''/kwik/'', pos = Some ''adjective'', defn = Some ''moving quickly'',
            example = None, synonyms = [''fast'', ''quick'', ''rapid'', ''swift'', ''speedy'']\<rparr>
   \<and> urlopen (sample_env (Response 200 []) (Some (JArr [sample_entry]))) [] ''quick''
       = Response 200 []
   \<and> json_loads (sample_env (Response 200 []) (Some (JArr [sample_entry]))) []
       = Some (JArr [sample_entry])
   \<and> get sample_entry ''phonetic'' = Inr JNull
   \<and> \<not> truthy JNull
   \<and> get sample_entry ''phonetics''
       = Inr (JArr [JObj [(''text'', JStr '' '')], JObj [(''text'', JStr '' kwik '')]])
   \<and> first_text [JObj [(''text'', JStr '' '')], JObj [(''text'', JStr '' kwik '')]] = Some ''kwik''
   \<and> wrap_ipa ''kwik'' = ''/kwik/''
   \<and> ipa (base_result\<lparr>ipa := Some ''/a/''\<rparr>)
       = (if strip '' /a/ '' = [] then None else Some (wrap_ipa (strip '' /a/ '')))
   \<and> Some ''/kwik/''
       = map_option wrap_ipa
           (first_text [JObj [(''text'', JStr '' '')], JObj [(''text'', JStr '' kwik '')]])"
proof -
  let ?e1 = "sample_env (Response 200 []) (Some (JArr [padded_entry]))"
  let ?e2 = "sample_env (Response 200 []) (Some (JArr [sample_entry]))"
  let ?r2 = "\<lparr>ipa = Some ''/kwik/'', pos = Some ''adjective'', defn = Some ''moving quickly'',
            example = None, synonyms = [''fast'', ''quick'', ''rapid'', ''swift'', ''speedy'']\<rparr>"
  let ?ps = "[JObj [(''text'', JStr '' '')], JObj [(''text'', JStr '' kwik '')]]"
  have a1: "fetch_word_info_from_api ?e1 [] ''a'' = Inr (base_result\<lparr>ipa := Some ''/a/''\<rparr>)"
    by code_simp
  have a2: "urlopen ?e1 [] ''a'' = Response 200 []" by (simp add: sample_env_def)
  have a3: "json_loads ?e1 [] = Some (JArr [padded_entry])" by (simp add: sample_env_def)
  have a4: "get padded_entry ''phonetic'' = Inr (JStr '' /a/ '')" by (simp add: padded_entry_def)
  have a5: "'' /a/ '' \<noteq> []" by simp
  have a6: "strip '' /a/ '' = ''/a/''" by code_simp
  have a7: "wrap_ipa ''/a/'' = ''/a/''" by code_simp
  have b1: "fetch_word_info_from_api ?e2 [] ''quick'' = Inr ?r2" by code_simp
  have b2: "urlopen ?e2 [] ''quick'' = Response 200 []" by (simp add: sample_env_def)
  have b3: "json_loads ?e2 [] = Some (JArr [sample_entry])" by (simp add: sample_env_def)
  have b4: "get sample_entry ''phonetic'' = Inr JNull" by (simp add: sample_entry_def)
  have b5: "\<not> truthy JNull" by simp
  have b6: "get sample_entry ''phonetics'' = Inr (JArr ?ps)" by (simp add: sample_entry_def)
  have b7: "first_text ?ps = Some ''kwik''" by code_simp
  have b8: "wrap_ipa ''kwik'' = ''/kwik/''" by code_simp
  note u1 = ipa_extraction_trimmed
     [where ev = ?e1 and reqs = "[]" and word = "''a''" and r = "base_result\<lparr>ipa := Some ''/a/''\<rparr>"
        and body = "[]" and entry = padded_entry and rest = "[]" and s = "'' /a/ ''"]
  note u2 = ipa_extraction_trimmed
     [where ev = ?e2 and reqs = "[]" and word = "''quick''" and r = ?r2
        and body = "[]" and entry = sample_entry and rest = "[]" and p = JNull and ps = ?ps]
  from u1 a1 a2 a3 a4 a5
  have c1: "ipa (base_result\<lparr>ipa := Some ''/a/''\<rparr>)
      = (if strip '' /a/ '' = [] then None else Some (wrap_ipa (strip '' /a/ '')))" by blast
  from u2 b1 b2 b3 b4 b5 b6
  have "ipa ?r2 = map_option wrap_ipa (first_text ?ps)" by blast
  then have c2: "Some ''/kwik/'' = map_option wrap_ipa (first_text ?ps)"
    by (simp only: word_info.select_convs)
  show ?thesis by (intro conjI a1 a2 a3 a4 a5 a6 a7 b1 b2 b3 b4 b5 b6 b7 b8 c1 c2)
qed

text \<open>
  The claim as stated fails where whitespace is involved. In the first entry the first
  element of the list has the non-empty text of one blank, and the code takes the text of
  the second element. In the second entry the direct field does not start with a slash,
  and the code stores it trimmed and unwrapped.
\<close>

theorem ipa_whitespace_counterexample:
  "claimed_ipa blank_text_entry = Some ''/ /''
   \<and> fetch_word_info_from_api (sample_env (Response 200 []) (Some (JArr [blank_text_entry]))) [] ''b''
       = Inr (base_result\<lparr>ipa := Some ''/b/''\<rparr>)
   \<and> claimed_ipa padded_entry = Some ''/ /a/ /''
   \<and> fetch_word_info_from_api (sample_env (Response 200 []) (Some (JArr [padded_entry]))) [] ''a''
       = Inr (base_result\<lparr>ipa := Some ''/a/''\<rparr>)"
  by code_simp

end
